theory Spec2Isabelle
  imports Main "HOL-Library.Word" "HOL-Library.Multiset" "HOL-Library.Product_Lexorder"
begin

section \<open>Go values: panics, pointers, big integers\<close>

text \<open>
  A Go panic is a value of the model. A function that can panic returns
  \<open>panic + 'a\<close>, with \<open>Inl\<close> for the panic.
\<close>

datatype panic = NilPointerDereference | IndexOutOfRange

definition and_then :: "panic + 'a \<Rightarrow> ('a \<Rightarrow> panic + 'b) \<Rightarrow> panic + 'b" where
  "and_then m f = (case m of Inl e \<Rightarrow> Inl e | Inr x \<Rightarrow> f x)"

text \<open>A pointer is an option: \<open>None\<close> is nil. Reading through nil panics.\<close>

definition deref :: "'a option \<Rightarrow> panic + 'a" where
  "deref p = (case p of None \<Rightarrow> Inl NilPointerDereference | Some v \<Rightarrow> Inr v)"

lemma and_then_Inr [simp]: "and_then (Inr x) f = f x"
  by (simp add: and_then_def)

lemma and_then_Inl [simp]: "and_then (Inl e) f = Inl e"
  by (simp add: and_then_def)

lemma deref_Some [simp]: "deref (Some v) = Inr v"
  by (simp add: deref_def)

lemma deref_None [simp]: "deref None = Inl NilPointerDereference"
  by (simp add: deref_def)

text \<open>\<open>*big.Int\<close>: a pointer to an unbounded integer.\<close>

type_synonym bigInt = "int option"

fun bit_length :: "nat \<Rightarrow> nat" where
  "bit_length n = (if n = 0 then 0 else Suc (bit_length (n div 2)))"

declare bit_length.simps [simp del]

text \<open>\<open>(*big.Int).BitLen\<close>: the length of the absolute value in bits; 0 for 0.\<close>

definition BitLen :: "bigInt \<Rightarrow> panic + nat" where
  "BitLen x = and_then (deref x) (\<lambda>v. Inr (bit_length (nat \<bar>v\<bar>)))"

text \<open>
  \<open>(*big.Int).Cmp\<close>: -1, 0 or +1. The method starts with \<open>case x == y\<close>, a comparison
  of the two pointers, and returns 0 there without reading either operand; so two nil
  pointers compare equal. Every other case reads \<open>x.neg\<close> and \<open>y.neg\<close>, and panics when
  one of the two is nil. Two equal non-nil pointers point to one value, for which the
  comparison of the values gives 0 as well, so the model needs no pointer identity.
\<close>

definition Cmp :: "bigInt \<Rightarrow> bigInt \<Rightarrow> panic + int" where
  "Cmp x y =
     (if x = None \<and> y = None then Inr 0
      else
        and_then (deref x) (\<lambda>a.
        and_then (deref y) (\<lambda>b.
          Inr (if a < b then - 1 else if a = b then 0 else 1))))"

text \<open>
  Modelled from the spec: \<open>common.BigMin\<close> (package helper/common) is called by
  \<open>EffectiveGasTip\<close> and is not among the sources; the spec gives the effective tip as
  the minimum of its two arguments. Both arguments are freshly allocated integers at
  the only call site, so they are never nil.
\<close>

definition BigMin :: "int \<Rightarrow> int \<Rightarrow> int" where
  "BigMin x y = min x y"

section \<open>Transactions (package types)\<close>

text \<open>
  The transaction types, with the values of the source file that defines the fee
  accessors.
\<close>

type_synonym TxType = "8 word"

definition LegacyTx :: TxType where "LegacyTx = 0x0"
definition StateTx :: TxType where "StateTx = 0x7f"
definition DynamicFeeTx :: TxType where "DynamicFeeTx = 0x02"

text \<open>
  The fields of \<open>types.Transaction\<close> that the pool's queues read, and the two that
  identify a record (\<open>Hash\<close>, \<open>From\<close>). The remaining fields (\<open>To\<close>, \<open>Input\<close>, the
  signature values, \<open>ChainID\<close>, the size cache and the logger configuration) are
  read by no function below.
\<close>

record Transaction =
  Nonce :: "64 word"
  GasPrice :: bigInt
  GasTipCap :: bigInt
  GasFeeCap :: bigInt
  Gas :: "64 word"
  Value :: bigInt
  Hash :: "256 word"
  From :: "160 word"
  Type :: TxType

text \<open>\<open>*types.Transaction\<close>.\<close>

type_synonym TxPtr = "Transaction option"

text \<open>
  The accessors below take the record their receiver points to. Each of them reads
  \<open>t.Type\<close> before anything else, so a nil receiver panics on entry; callers
  model that with \<open>deref\<close>.
\<close>

definition GetGasTipCap :: "Transaction \<Rightarrow> bigInt" where
  "GetGasTipCap t = (if Type t = DynamicFeeTx then GasTipCap t else GasPrice t)"

definition GetGasFeeCap :: "Transaction \<Rightarrow> bigInt" where
  "GetGasFeeCap t = (if Type t = DynamicFeeTx then GasFeeCap t else GasPrice t)"

text \<open>
  \<open>EffectiveGasTip\<close>: with no base fee the tip cap pointer itself is returned (it may
  be nil); otherwise \<open>new(big.Int).Set\<close> and \<open>new(big.Int).Sub\<close> read their
  arguments and panic on nil.
\<close>

definition EffectiveGasTip :: "Transaction \<Rightarrow> bigInt \<Rightarrow> panic + bigInt" where
  "EffectiveGasTip t baseFee =
     (case baseFee of
        None \<Rightarrow> Inr (GetGasTipCap t)
      | Some bf \<Rightarrow>
          if bit_length (nat \<bar>bf\<bar>) = 0 then Inr (GetGasTipCap t)
          else
            and_then (deref (GetGasTipCap t)) (\<lambda>tip.
            and_then (deref (GetGasFeeCap t)) (\<lambda>cap.
              Inr (Some (BigMin tip (cap - bf))))))"

section \<open>The economic comparator (package txpool)\<close>

definition cmp :: "TxPtr \<Rightarrow> TxPtr \<Rightarrow> bigInt \<Rightarrow> panic + int" where
  "cmp a b baseFee =
     and_then (BitLen baseFee) (\<lambda>bl.
     and_then (deref a) (\<lambda>ta.
     and_then (deref b) (\<lambda>tb.
     and_then
       (if bl > 0 then
          and_then (EffectiveGasTip ta baseFee) (\<lambda>ea.
          and_then (EffectiveGasTip tb baseFee) (\<lambda>eb. Cmp ea eb))
        else Inr 0) (\<lambda>c.
     if c \<noteq> 0 then Inr c
     else
       and_then (Cmp (GetGasFeeCap ta) (GetGasFeeCap tb)) (\<lambda>c.
       if c \<noteq> 0 then Inr c
       else Cmp (GetGasTipCap ta) (GetGasTipCap tb))))))"

text \<open>
  The comparator in the words of the specification, for records whose fee
  representation is populated: a legacy record folds tip cap and fee cap to its gas
  price, a dynamic-fee record carries both.
\<close>

definition spec_tipCap :: "Transaction \<Rightarrow> int" where
  "spec_tipCap t =
     (if Type t = DynamicFeeTx then (case GasTipCap t of Some v \<Rightarrow> v | None \<Rightarrow> 0)
      else (case GasPrice t of Some v \<Rightarrow> v | None \<Rightarrow> 0))"

definition spec_feeCap :: "Transaction \<Rightarrow> int" where
  "spec_feeCap t =
     (if Type t = DynamicFeeTx then (case GasFeeCap t of Some v \<Rightarrow> v | None \<Rightarrow> 0)
      else (case GasPrice t of Some v \<Rightarrow> v | None \<Rightarrow> 0))"

definition spec_effectiveTip :: "Transaction \<Rightarrow> int \<Rightarrow> int" where
  "spec_effectiveTip t baseFee = min (spec_tipCap t) (spec_feeCap t - baseFee)"

definition larger_wins :: "int \<Rightarrow> int \<Rightarrow> int" where
  "larger_wins x y = (if x > y then 1 else if x < y then - 1 else 0)"

definition spec_compare :: "Transaction \<Rightarrow> Transaction \<Rightarrow> int \<Rightarrow> int" where
  "spec_compare a b baseFee =
     (if baseFee > 0 \<and> spec_effectiveTip a baseFee \<noteq> spec_effectiveTip b baseFee
      then larger_wins (spec_effectiveTip a baseFee) (spec_effectiveTip b baseFee)
      else if spec_feeCap a \<noteq> spec_feeCap b
      then larger_wins (spec_feeCap a) (spec_feeCap b)
      else larger_wins (spec_tipCap a) (spec_tipCap b))"

text \<open>
  The same three tiers as a function of the four caps alone: the tip cap and fee cap
  the first record contributes, then those of the second.
\<close>

definition spec_compare_caps :: "int \<Rightarrow> int \<Rightarrow> int \<Rightarrow> int \<Rightarrow> int \<Rightarrow> int" where
  "spec_compare_caps tipA capA tipB capB fee =
     (if fee > 0 \<and> min tipA (capA - fee) \<noteq> min tipB (capB - fee)
      then larger_wins (min tipA (capA - fee)) (min tipB (capB - fee))
      else if capA \<noteq> capB then larger_wins capA capB
      else larger_wins tipA tipB)"

text \<open>A record whose canonical fee fields are set: the comparator reads no nil.\<close>

definition fee_populated :: "Transaction \<Rightarrow> bool" where
  "fee_populated t = (GetGasTipCap t \<noteq> None \<and> GetGasFeeCap t \<noteq> None)"

section \<open>Slices and the heap interface\<close>

text \<open>Indexing a slice with a Go \<open>int\<close>: out of range panics.\<close>

definition slice_index :: "'a list \<Rightarrow> int \<Rightarrow> panic + 'a" where
  "slice_index s i =
     (if 0 \<le> i \<and> i < int (length s) then Inr (s ! nat i) else Inl IndexOutOfRange)"

text \<open>
  \<open>s[i], s[j] = s[j], s[i]\<close>: both operands are read, then \<open>s[i]\<close> and \<open>s[j]\<close> are
  assigned in this order.
\<close>

definition slice_Swap :: "'a list \<Rightarrow> int \<Rightarrow> int \<Rightarrow> panic + 'a list" where
  "slice_Swap s i j =
     and_then (slice_index s j) (\<lambda>y.
     and_then (slice_index s i) (\<lambda>x.
       Inr (s[nat i := y, nat j := x])))"

text \<open>Go's integer division truncates towards zero.\<close>

definition quo :: "int \<Rightarrow> int \<Rightarrow> int" where
  "quo a b = sgn a * sgn b * (\<bar>a\<bar> div \<bar>b\<bar>)"

text \<open>
  A value of type \<open>interface{}\<close> as the queues see it: either it holds a
  \<open>*types.Transaction\<close> (the pointer may be nil) or it holds something else.
\<close>

datatype any_value = TransactionValue TxPtr | OtherValue

text \<open>
  \<open>heap.Interface\<close>: the five methods \<open>container/heap\<close> calls. The receiver of
  every implementation below is a slice (for \<open>maxPriceQueue\<close>, the slice field of a
  struct whose other field is never assigned after construction), so a method takes
  the slice and returns the updated one.
\<close>

record 'a Interface =
  Len :: "'a list \<Rightarrow> int"
  Less :: "'a list \<Rightarrow> int \<Rightarrow> int \<Rightarrow> panic + bool"
  Swap :: "'a list \<Rightarrow> int \<Rightarrow> int \<Rightarrow> panic + 'a list"
  Push :: "'a list \<Rightarrow> any_value \<Rightarrow> 'a list"
  Pop :: "'a list \<Rightarrow> panic + (any_value \<times> 'a list)"

section \<open>Package container/heap\<close>

text \<open>
  The standard library's heap, as the queues use it. Indices are Go \<open>int\<close>s; they
  are modelled as unbounded integers, since a slice of pointers long enough for
  \<open>2*i + 1\<close> to overflow 64 bits cannot be allocated. The test \<open>j1 < 0\<close> of \<open>down\<close>
  is kept as written.
\<close>

function heap_up :: "'a Interface \<Rightarrow> 'a list \<Rightarrow> int \<Rightarrow> panic + 'a list" where
  "heap_up h s j =
     (let i = quo (j - 1) 2 in
      if i = j then Inr s
      else
        (case Less h s j i of
           Inl e \<Rightarrow> Inl e
         | Inr lt \<Rightarrow>
             if \<not> lt then Inr s
             else (case Swap h s i j of Inl e \<Rightarrow> Inl e | Inr s' \<Rightarrow> heap_up h s' i)))"
  by pat_completeness auto
termination
  by (relation "measure (\<lambda>(h, s, j). nat \<bar>j\<bar>)") (auto simp: quo_def sgn_if)

text \<open>
  \<open>down\<close> also reports whether the element moved; \<open>Init\<close> and \<open>Pop\<close> discard that
  result, so the model returns the slice only.
\<close>

function heap_down :: "'a Interface \<Rightarrow> 'a list \<Rightarrow> int \<Rightarrow> int \<Rightarrow> panic + 'a list" where
  "heap_down h s i n =
     (let j1 = 2 * i + 1 in
      if j1 \<ge> n \<or> j1 < 0 then Inr s
      else
        (case (if j1 + 1 < n then Less h s (j1 + 1) j1 else Inr False) of
           Inl e \<Rightarrow> Inl e
         | Inr r \<Rightarrow>
             (let j = (if r then j1 + 1 else j1) in
              case Less h s j i of
                Inl e \<Rightarrow> Inl e
              | Inr lt \<Rightarrow>
                  if \<not> lt then Inr s
                  else (case Swap h s i j of
                          Inl e \<Rightarrow> Inl e
                        | Inr s' \<Rightarrow> heap_down h s' j n))))"
  by pat_completeness auto
termination
  by (relation "measure (\<lambda>(h, s, i, n). nat (n - i))") (auto split: if_splits)

declare heap_up.simps [simp del] heap_down.simps [simp del]

text \<open>The loop of \<open>heap.Init\<close>: \<open>for i := n/2 - 1; i >= 0; i-- { down(h, i, n) }\<close>.\<close>

function Init_loop :: "'a Interface \<Rightarrow> 'a list \<Rightarrow> int \<Rightarrow> int \<Rightarrow> panic + 'a list" where
  "Init_loop h s i n =
     (if i \<ge> 0
      then (case heap_down h s i n of Inl e \<Rightarrow> Inl e | Inr s' \<Rightarrow> Init_loop h s' (i - 1) n)
      else Inr s)"
  by pat_completeness auto
termination
  by (relation "measure (\<lambda>(h, s, i, n). nat (i + 1))") auto

declare Init_loop.simps [simp del]

definition heap_Init :: "'a Interface \<Rightarrow> 'a list \<Rightarrow> panic + 'a list" where
  "heap_Init h s = (let n = Len h s in Init_loop h s (quo n 2 - 1) n)"

definition heap_Push :: "'a Interface \<Rightarrow> 'a list \<Rightarrow> any_value \<Rightarrow> panic + 'a list" where
  "heap_Push h s x = (let s' = Push h s x in heap_up h s' (Len h s' - 1))"

definition heap_Pop :: "'a Interface \<Rightarrow> 'a list \<Rightarrow> panic + (any_value \<times> 'a list)" where
  "heap_Pop h s =
     (let n = Len h s - 1 in
      and_then (Swap h s 0 n) (\<lambda>s1.
      and_then (heap_down h s1 0 n) (\<lambda>s2.
        Pop h s2)))"

section \<open>The per-account queue: \<open>minNonceQueue\<close> and \<open>accountQueue\<close>\<close>

definition minNonceQueue_Peek :: "TxPtr list \<Rightarrow> TxPtr" where
  "minNonceQueue_Peek q = (if int (length q) = 0 then None else q ! 0)"

definition minNonceQueue_Len :: "TxPtr list \<Rightarrow> int" where
  "minNonceQueue_Len q = int (length q)"

definition minNonceQueue_Swap :: "TxPtr list \<Rightarrow> int \<Rightarrow> int \<Rightarrow> panic + TxPtr list" where
  "minNonceQueue_Swap q i j = slice_Swap q i j"

definition minNonceQueue_Less :: "TxPtr list \<Rightarrow> int \<Rightarrow> int \<Rightarrow> panic + bool" where
  "minNonceQueue_Less q i j =
     and_then (slice_index q i) (\<lambda>pi.
     and_then (deref pi) (\<lambda>ti.
     and_then (slice_index q j) (\<lambda>pj.
     and_then (deref pj) (\<lambda>tj.
       if Nonce ti = Nonce tj
       then and_then (Cmp (GasPrice ti) (GasPrice tj)) (\<lambda>c. Inr (c > 0))
       else Inr (Nonce ti < Nonce tj)))))"

definition minNonceQueue_Push :: "TxPtr list \<Rightarrow> any_value \<Rightarrow> TxPtr list" where
  "minNonceQueue_Push q x =
     (case x of TransactionValue transaction \<Rightarrow> q @ [transaction] | OtherValue \<Rightarrow> q)"

definition minNonceQueue_Pop :: "TxPtr list \<Rightarrow> panic + (any_value \<times> TxPtr list)" where
  "minNonceQueue_Pop q =
     (let n = int (length q) in
      and_then (slice_index q (n - 1)) (\<lambda>x.
        Inr (TransactionValue x, take (nat (n - 1)) q)))"

definition minNonceQueue :: "TxPtr Interface" where
  "minNonceQueue =
     \<lparr>Len = minNonceQueue_Len, Less = minNonceQueue_Less, Swap = minNonceQueue_Swap,
      Push = minNonceQueue_Push, Pop = minNonceQueue_Pop\<rparr>"

text \<open>
  \<open>accountQueue\<close>: the embedded \<open>sync.RWMutex\<close> (who holds it), the flag \<open>wLock\<close>
  and the heap.
\<close>

record RWMutex =
  writer :: bool
  readers :: nat

record accountQueue =
  mutex :: RWMutex
  wLock :: "32 word"
  queue :: "TxPtr list"

definition newAccountQueue :: "panic + accountQueue" where
  "newAccountQueue =
     and_then (heap_Init minNonceQueue []) (\<lambda>s.
       Inr \<lparr>mutex = \<lparr>writer = False, readers = 0\<rparr>, wLock = 0, queue = s\<rparr>)"

text \<open>
  \<open>length\<close> converts \<open>Len\<close> to \<open>uint64\<close>; \<open>Len\<close> is never negative, so the
  conversion keeps the value.
\<close>

definition accountQueue_length :: "accountQueue \<Rightarrow> int" where
  "accountQueue_length q = Len minNonceQueue (queue q)"

definition accountQueue_push :: "accountQueue \<Rightarrow> TxPtr \<Rightarrow> panic + accountQueue" where
  "accountQueue_push q tx =
     and_then (heap_Push minNonceQueue (queue q) (TransactionValue tx)) (\<lambda>s.
       Inr (q\<lparr>queue := s\<rparr>))"

definition accountQueue_peek :: "accountQueue \<Rightarrow> TxPtr" where
  "accountQueue_peek q =
     (if accountQueue_length q = 0 then None else minNonceQueue_Peek (queue q))"

definition accountQueue_pop :: "accountQueue \<Rightarrow> panic + (TxPtr \<times> accountQueue)" where
  "accountQueue_pop q =
     (if accountQueue_length q = 0 then Inr (None, q)
      else
        and_then (heap_Pop minNonceQueue (queue q)) (\<lambda>(x, s).
          case x of
            TransactionValue transaction \<Rightarrow> Inr (transaction, q\<lparr>queue := s\<rparr>)
          | OtherValue \<Rightarrow> Inr (None, q\<lparr>queue := s\<rparr>)))"

text \<open>
  \<open>clear\<close> returns the slice and re-slices the queue to length 0. The returned
  slice keeps the backing array of the queue; the model returns its contents at the
  time of the call.
\<close>

definition accountQueue_clear :: "accountQueue \<Rightarrow> TxPtr list \<times> accountQueue" where
  "accountQueue_clear q = (queue q, q\<lparr>queue := take 0 (queue q)\<rparr>)"

text \<open>
  \<open>lock\<close> and \<open>unlock\<close>, over \<open>sync.RWMutex\<close> as its documentation describes it:
  held by one writer or by any number of readers. A call is one atomic step. \<open>Lock\<close>
  and \<open>RLock\<close> do not return while the mutex is held in a conflicting mode (\<open>None\<close>);
  \<open>Unlock\<close> of a mutex that is not locked for writing and \<open>RUnlock\<close> of a mutex that
  is not locked for reading are fatal errors of the runtime.
\<close>

datatype fatal = UnlockOfUnlockedRWMutex | RUnlockOfUnlockedRWMutex

definition RWMutex_Lock :: "RWMutex \<Rightarrow> RWMutex option" where
  "RWMutex_Lock m = (if writer m \<or> readers m > 0 then None else Some (m\<lparr>writer := True\<rparr>))"

definition RWMutex_RLock :: "RWMutex \<Rightarrow> RWMutex option" where
  "RWMutex_RLock m = (if writer m then None else Some (m\<lparr>readers := readers m + 1\<rparr>))"

definition RWMutex_Unlock :: "RWMutex \<Rightarrow> fatal + RWMutex" where
  "RWMutex_Unlock m =
     (if writer m then Inr (m\<lparr>writer := False\<rparr>) else Inl UnlockOfUnlockedRWMutex)"

definition RWMutex_RUnlock :: "RWMutex \<Rightarrow> fatal + RWMutex" where
  "RWMutex_RUnlock m =
     (if readers m > 0 then Inr (m\<lparr>readers := readers m - 1\<rparr>)
      else Inl RUnlockOfUnlockedRWMutex)"

definition accountQueue_lock :: "accountQueue \<Rightarrow> bool \<Rightarrow> accountQueue option" where
  "accountQueue_lock q write =
     (case write of
        True \<Rightarrow>
          (case RWMutex_Lock (mutex q) of
             None \<Rightarrow> None
           | Some m \<Rightarrow> Some (q\<lparr>mutex := m, wLock := 1\<rparr>))
      | False \<Rightarrow>
          (case RWMutex_RLock (mutex q) of
             None \<Rightarrow> None
           | Some m \<Rightarrow> Some (q\<lparr>mutex := m, wLock := 0\<rparr>)))"

definition accountQueue_unlock :: "accountQueue \<Rightarrow> fatal + accountQueue" where
  "accountQueue_unlock q =
     (let old = wLock q; q' = q\<lparr>wLock := 0\<rparr> in
      if old = 1
      then (case RWMutex_Unlock (mutex q') of Inl f \<Rightarrow> Inl f | Inr m \<Rightarrow> Inr (q'\<lparr>mutex := m\<rparr>))
      else (case RWMutex_RUnlock (mutex q') of Inl f \<Rightarrow> Inl f | Inr m \<Rightarrow> Inr (q'\<lparr>mutex := m\<rparr>)))"

section \<open>The price-ordered queue: \<open>maxPriceQueue\<close> and \<open>pricedQueue\<close>\<close>

record maxPriceQueue =
  baseFee :: bigInt
  txs :: "TxPtr list"

definition maxPriceQueue_Peek :: "maxPriceQueue \<Rightarrow> TxPtr" where
  "maxPriceQueue_Peek q = (if int (length (txs q)) = 0 then None else txs q ! 0)"

text \<open>
  The methods the heap calls, given the fields of the receiver they use: \<open>baseFee\<close>
  is read by \<open>Less\<close> only and assigned by no method.
\<close>

definition maxPriceQueue_Len :: "TxPtr list \<Rightarrow> int" where
  "maxPriceQueue_Len ts = int (length ts)"

definition maxPriceQueue_Swap :: "TxPtr list \<Rightarrow> int \<Rightarrow> int \<Rightarrow> panic + TxPtr list" where
  "maxPriceQueue_Swap ts i j = slice_Swap ts i j"

definition maxPriceQueue_Push :: "TxPtr list \<Rightarrow> any_value \<Rightarrow> TxPtr list" where
  "maxPriceQueue_Push ts x =
     (case x of TransactionValue transaction \<Rightarrow> ts @ [transaction] | OtherValue \<Rightarrow> ts)"

definition maxPriceQueue_Pop :: "TxPtr list \<Rightarrow> panic + (any_value \<times> TxPtr list)" where
  "maxPriceQueue_Pop old =
     (let n = int (length old) in
      and_then (slice_index old (n - 1)) (\<lambda>x.
        Inr (TransactionValue x, take (nat (n - 1)) old)))"

definition maxPriceQueue_Less :: "bigInt \<Rightarrow> TxPtr list \<Rightarrow> int \<Rightarrow> int \<Rightarrow> panic + bool" where
  "maxPriceQueue_Less fee ts i j =
     and_then (slice_index ts i) (\<lambda>a.
     and_then (slice_index ts j) (\<lambda>b.
     and_then (cmp a b fee) (\<lambda>c.
       if c = - 1 then Inr False
       else if c = 1 then Inr True
       else
         and_then (deref a) (\<lambda>ta.
         and_then (deref b) (\<lambda>tb.
           Inr (Nonce ta < Nonce tb))))))"

definition maxPriceQueue_heap :: "bigInt \<Rightarrow> TxPtr Interface" where
  "maxPriceQueue_heap fee =
     \<lparr>Len = maxPriceQueue_Len, Less = maxPriceQueue_Less fee, Swap = maxPriceQueue_Swap,
      Push = maxPriceQueue_Push, Pop = maxPriceQueue_Pop\<rparr>"

text \<open>
  \<open>pricedQueue\<close> has one field, a pointer to the \<open>maxPriceQueue\<close> it owns; the model
  identifies the two.
\<close>

type_synonym pricedQueue = maxPriceQueue

definition newPricesQueue :: "64 word \<Rightarrow> TxPtr list \<Rightarrow> panic + pricedQueue" where
  "newPricesQueue base initialTxs =
     (let fee = Some (uint base) in
      and_then (heap_Init (maxPriceQueue_heap fee) initialTxs) (\<lambda>s.
        Inr \<lparr>baseFee = fee, txs = s\<rparr>))"

definition pricedQueue_length :: "pricedQueue \<Rightarrow> int" where
  "pricedQueue_length q = Len (maxPriceQueue_heap (baseFee q)) (txs q)"

definition pricedQueue_push :: "pricedQueue \<Rightarrow> TxPtr \<Rightarrow> panic + pricedQueue" where
  "pricedQueue_push q tx =
     and_then (heap_Push (maxPriceQueue_heap (baseFee q)) (txs q) (TransactionValue tx)) (\<lambda>s.
       Inr (q\<lparr>txs := s\<rparr>))"

definition pricedQueue_pop :: "pricedQueue \<Rightarrow> panic + (TxPtr \<times> pricedQueue)" where
  "pricedQueue_pop q =
     (if pricedQueue_length q = 0 then Inr (None, q)
      else
        and_then (heap_Pop (maxPriceQueue_heap (baseFee q)) (txs q)) (\<lambda>(x, s).
          case x of
            TransactionValue transaction \<Rightarrow> Inr (transaction, q\<lparr>txs := s\<rparr>)
          | OtherValue \<Rightarrow> Inr (None, q\<lparr>txs := s\<rparr>)))"

section \<open>Repeated \<open>pop\<close>: \<open>prune\<close> and the drain\<close>

text \<open>
  Both implementations of \<open>heap.Interface\<close> are slice operations. Under them a
  successful \<open>heap.Pop\<close> shortens the slice, which is why the two iterations
  below terminate.
\<close>

definition tx_ops :: "TxPtr Interface \<Rightarrow> bool" where
  "tx_ops h \<longleftrightarrow>
     (\<forall>s. Len h s = int (length s)) \<and>
     (\<forall>s i j. Swap h s i j = slice_Swap s i j) \<and>
     (\<forall>s x. Push h s x = (case x of TransactionValue t \<Rightarrow> s @ [t] | OtherValue \<Rightarrow> s)) \<and>
     (\<forall>s. Pop h s =
        and_then (slice_index s (int (length s) - 1)) (\<lambda>x.
          Inr (TransactionValue x, take (nat (int (length s) - 1)) s)))"

lemma slice_Swap_length: "slice_Swap s i j = Inr s' \<Longrightarrow> length s' = length s"
  by (auto simp: slice_Swap_def slice_index_def split: if_splits)

lemma heap_down_length:
  "\<forall>s i j. Swap h s i j = slice_Swap s i j \<Longrightarrow> heap_down h s i n = Inr s' \<Longrightarrow>
     length s' = length s"
proof (induction h s i n rule: heap_down.induct)
  case (1 h s i n)
  note sw = "1.prems"(1) and run = "1.prems"(2)
  let ?j1 = "2 * i + 1"
  let ?first = "if ?j1 + 1 < n then Less h s (?j1 + 1) ?j1 else Inr False"
  show ?case
  proof (cases "n \<le> ?j1 \<or> ?j1 < 0")
    case True
    with run show ?thesis
      by (subst (asm) heap_down.simps) (simp add: Let_def)
  next
    case False
    from run have unf: "(case ?first of
           Inl e \<Rightarrow> Inl e
         | Inr r \<Rightarrow>
             (let j = (if r then ?j1 + 1 else ?j1) in
              case Less h s j i of
                Inl e \<Rightarrow> Inl e
              | Inr lt \<Rightarrow>
                  if \<not> lt then Inr s
                  else (case Swap h s i j of
                          Inl e \<Rightarrow> Inl e
                        | Inr s' \<Rightarrow> heap_down h s' j n))) = Inr s'"
      by (subst (asm) heap_down.simps) (simp only: Let_def False if_False)
    then obtain r where r: "?first = Inr r"
      by (cases ?first) (simp_all only: sum.case sum.distinct)
    define j where "j = (if r then ?j1 + 1 else ?j1)"
    from unf have unf2: "(case Less h s j i of
                Inl e \<Rightarrow> Inl e
              | Inr lt \<Rightarrow>
                  if \<not> lt then Inr s
                  else (case Swap h s i j of
                          Inl e \<Rightarrow> Inl e
                        | Inr s' \<Rightarrow> heap_down h s' j n)) = Inr s'"
      by (simp only: r sum.case Let_def j_def)
    then obtain lt where lt: "Less h s j i = Inr lt"
      by (cases "Less h s j i") (simp_all only: sum.case sum.distinct)
    show ?thesis
    proof (cases lt)
      case False
      with unf2 lt show ?thesis by simp
    next
      case True
      with unf2 lt have unf3: "(case Swap h s i j of
                          Inl e \<Rightarrow> Inl e
                        | Inr s' \<Rightarrow> heap_down h s' j n) = Inr s'"
        by simp
      then obtain s1 where s1: "Swap h s i j = Inr s1"
        by (cases "Swap h s i j") (simp_all only: sum.case sum.distinct)
      with unf3 have rec: "heap_down h s1 j n = Inr s'" by simp
      have "length s1 = length s" using s1 sw slice_Swap_length by metis
      moreover have "length s' = length s1"
        using "1.IH" [OF refl False r j_def lt _ s1 sw rec] True by simp
      ultimately show ?thesis by simp
    qed
  qed
qed

lemma heap_Pop_length:
  assumes "tx_ops h" "heap_Pop h s = Inr (x, s')"
  shows "length s' < length s"
proof -
  have sw: "\<forall>s i j. Swap h s i j = slice_Swap s i j" using assms(1) by (simp add: tx_ops_def)
  have len: "Len h s = int (length s)" using assms(1) by (simp add: tx_ops_def)
  from assms(2) obtain s1 s2 where s1: "slice_Swap s 0 (int (length s) - 1) = Inr s1"
    and s2: "heap_down h s1 0 (int (length s) - 1) = Inr s2" and p: "Pop h s2 = Inr (x, s')"
    by (auto simp: heap_Pop_def len sw and_then_def Let_def split: sum.splits)
  have l: "length s2 = length s"
    using heap_down_length [OF sw s2] slice_Swap_length [OF s1] by simp
  have "Pop h s2 = and_then (slice_index s2 (int (length s2) - 1)) (\<lambda>x.
          Inr (TransactionValue x, take (nat (int (length s2) - 1)) s2))"
    using assms(1) by (simp add: tx_ops_def)
  with p have "length s2 > 0" and "s' = take (nat (int (length s2) - 1)) s2"
    by (auto simp: slice_index_def and_then_def split: if_splits)
  then have "length s' = length s2 - 1" and "length s2 > 0" by simp_all
  then show ?thesis using l by simp
qed

lemma tx_ops_minNonceQueue: "tx_ops minNonceQueue"
  by (simp add: tx_ops_def minNonceQueue_def minNonceQueue_Len_def minNonceQueue_Swap_def
      minNonceQueue_Push_def minNonceQueue_Pop_def Let_def)

lemma tx_ops_maxPriceQueue: "tx_ops (maxPriceQueue_heap fee)"
  by (simp add: tx_ops_def maxPriceQueue_heap_def maxPriceQueue_Len_def maxPriceQueue_Swap_def
      maxPriceQueue_Push_def maxPriceQueue_Pop_def Let_def)

lemma accountQueue_pop_length:
  assumes "accountQueue_pop q = Inr (p, q')" "accountQueue_length q \<noteq> 0"
  shows "length (queue q') < length (queue q)"
proof -
  from assms obtain x s where "heap_Pop minNonceQueue (queue q) = Inr (x, s)" "queue q' = s"
    by (auto simp: accountQueue_pop_def and_then_def split: sum.splits any_value.splits)
  then show ?thesis using heap_Pop_length [OF tx_ops_minNonceQueue] by simp
qed

lemma accountQueue_peek_Some: "accountQueue_peek q = Some tx \<Longrightarrow> accountQueue_length q \<noteq> 0"
  by (auto simp: accountQueue_peek_def split: if_splits)

function accountQueue_prune_loop ::
  "accountQueue \<Rightarrow> 64 word \<Rightarrow> TxPtr list \<Rightarrow> panic + (TxPtr list \<times> accountQueue)" where
  "accountQueue_prune_loop q nonce pruned =
     (case accountQueue_peek q of
        None \<Rightarrow> Inr (pruned, q)
      | Some tx \<Rightarrow>
          if Nonce tx \<ge> nonce then Inr (pruned, q)
          else
            (case accountQueue_pop q of
               Inl e \<Rightarrow> Inl e
             | Inr (p, q') \<Rightarrow> accountQueue_prune_loop q' nonce (pruned @ [p])))"
  by pat_completeness auto
termination
  by (relation "measure (\<lambda>(q, nonce, pruned). length (queue q))")
    (auto dest: accountQueue_pop_length accountQueue_peek_Some)

declare accountQueue_prune_loop.simps [simp del]

definition accountQueue_prune :: "accountQueue \<Rightarrow> 64 word \<Rightarrow> panic + (TxPtr list \<times> accountQueue)" where
  "accountQueue_prune q nonce = accountQueue_prune_loop q nonce []"

lemma pricedQueue_pop_length:
  assumes "pricedQueue_pop q = Inr (p, q')" "pricedQueue_length q \<noteq> 0"
  shows "length (txs q') < length (txs q)"
proof -
  from assms obtain x s where "heap_Pop (maxPriceQueue_heap (baseFee q)) (txs q) = Inr (x, s)"
    "txs q' = s"
    by (auto simp: pricedQueue_pop_def and_then_def split: sum.splits any_value.splits)
  then show ?thesis using heap_Pop_length [OF tx_ops_maxPriceQueue] by simp
qed

function pricedQueue_pop_all :: "pricedQueue \<Rightarrow> panic + TxPtr list" where
  "pricedQueue_pop_all q =
     (if pricedQueue_length q = 0 then Inr []
      else
        (case pricedQueue_pop q of
           Inl e \<Rightarrow> Inl e
         | Inr (tx, q') \<Rightarrow> and_then (pricedQueue_pop_all q') (\<lambda>rest. Inr (tx # rest))))"
  by pat_completeness auto
termination
  by (relation "measure (\<lambda>q. length (txs q))") (auto dest: pricedQueue_pop_length)

declare pricedQueue_pop_all.simps [simp del]

section \<open>Example records\<close>

text \<open>
  The records of the specification's scenarios, used to instantiate the theorems:
  legacy records of sender 1 (or of a given sender), state records, and dynamic-fee
  records of sender 2 (or of a given sender). A dynamic-fee record carries no gas
  price: the field is nil, as \<open>GetGasPrice\<close>, \<open>Cost\<close> and \<open>Copy\<close> expect it can be.
\<close>

definition legacy_tx :: "64 word \<Rightarrow> int \<Rightarrow> 256 word \<Rightarrow> Transaction" where
  "legacy_tx n price h =
     \<lparr>Nonce = n, GasPrice = Some price, GasTipCap = None, GasFeeCap = None, Gas = 21000,
      Value = Some 0, Hash = h, From = 1, Type = LegacyTx\<rparr>"

definition legacy_tx_of :: "160 word \<Rightarrow> 64 word \<Rightarrow> int \<Rightarrow> 256 word \<Rightarrow> Transaction" where
  "legacy_tx_of sender n price h = (legacy_tx n price h)\<lparr>From := sender\<rparr>"

definition state_tx :: "64 word \<Rightarrow> int \<Rightarrow> 256 word \<Rightarrow> Transaction" where
  "state_tx n price h =
     \<lparr>Nonce = n, GasPrice = Some price, GasTipCap = None, GasFeeCap = None, Gas = 21000,
      Value = Some 0, Hash = h, From = 1, Type = StateTx\<rparr>"

definition dynamic_tx :: "64 word \<Rightarrow> int \<Rightarrow> int \<Rightarrow> 256 word \<Rightarrow> Transaction" where
  "dynamic_tx n tip cap h =
     \<lparr>Nonce = n, GasPrice = None, GasTipCap = Some tip, GasFeeCap = Some cap, Gas = 21000,
      Value = Some 0, Hash = h, From = 2, Type = DynamicFeeTx\<rparr>"

definition dynamic_tx_of ::
  "160 word \<Rightarrow> 64 word \<Rightarrow> int \<Rightarrow> int \<Rightarrow> 256 word \<Rightarrow> Transaction" where
  "dynamic_tx_of sender n tip cap h = (dynamic_tx n tip cap h)\<lparr>From := sender\<rparr>"

section \<open>Properties of the comparator\<close>

lemma bit_length_zero_iff: "bit_length n = 0 \<longleftrightarrow> n = 0"
  by (subst bit_length.simps) simp

lemma bit_length_pos_iff: "0 < bit_length n \<longleftrightarrow> n \<noteq> 0"
  using bit_length_zero_iff [of n] by auto

lemma fee_populated_caps:
  assumes "fee_populated t"
  shows "GetGasTipCap t = Some (spec_tipCap t)" and "GetGasFeeCap t = Some (spec_feeCap t)"
  using assms
  by (auto simp: fee_populated_def GetGasTipCap_def GetGasFeeCap_def spec_tipCap_def
      spec_feeCap_def split: if_splits)

lemma EffectiveGasTip_populated:
  assumes "fee_populated t" "bf \<noteq> 0"
  shows "EffectiveGasTip t (Some bf) = Inr (Some (spec_effectiveTip t bf))"
  using assms
  by (simp add: EffectiveGasTip_def fee_populated_caps bit_length_zero_iff and_then_def
      deref_def BigMin_def spec_effectiveTip_def)

lemma Cmp_Some: "Cmp (Some x) (Some y) = Inr (larger_wins x y)"
  by (simp add: Cmp_def and_then_def deref_def larger_wins_def)

lemma larger_wins_zero_iff: "larger_wins x y = 0 \<longleftrightarrow> x = y"
  by (simp add: larger_wins_def)

lemma cmp_populated:
  assumes "fee_populated a" "fee_populated b"
  shows "cmp (Some a) (Some b) (Some bf) =
           Inr (if bf \<noteq> 0 \<and> spec_effectiveTip a bf \<noteq> spec_effectiveTip b bf
                then larger_wins (spec_effectiveTip a bf) (spec_effectiveTip b bf)
                else if spec_feeCap a \<noteq> spec_feeCap b
                then larger_wins (spec_feeCap a) (spec_feeCap b)
                else larger_wins (spec_tipCap a) (spec_tipCap b))"
proof (cases "bf = 0")
  case True
  with assms show ?thesis
    by (simp add: cmp_def BitLen_def and_then_def deref_def bit_length_pos_iff
        fee_populated_caps Cmp_Some larger_wins_zero_iff)
next
  case False
  with assms show ?thesis
    by (simp add: cmp_def BitLen_def and_then_def deref_def bit_length_pos_iff
        EffectiveGasTip_populated fee_populated_caps Cmp_Some larger_wins_zero_iff)
qed

lemma cmp_spec_compare:
  assumes "fee_populated a" and "fee_populated b" and "0 \<le> fee"
  shows "cmp (Some a) (Some b) (Some fee) = Inr (spec_compare a b fee)"
  using assms by (auto simp: cmp_populated spec_compare_def)

text \<open>
  C1. For a non-negative base fee and two records with populated fee fields, \<open>cmp\<close>
  returns normally and its result is the three-tier comparison of the specification:
  effective tips when the base fee is positive and they differ, otherwise fee caps
  when they differ, otherwise tip caps; +1 when the first record is the larger, -1
  when the second is, 0 on a tie in all tiers. A record that is not of the
  dynamic-fee type contributes its gas price as both caps.
\<close>

theorem cmp_three_tiers:
  assumes "fee_populated a" and "fee_populated b" and "0 \<le> fee"
  shows "cmp (Some a) (Some b) (Some fee) = Inr (spec_compare a b fee)
         \<and> (Type a \<noteq> DynamicFeeTx \<longrightarrow>
              GasPrice a = Some (spec_tipCap a) \<and> GasPrice a = Some (spec_feeCap a))
         \<and> (Type b \<noteq> DynamicFeeTx \<longrightarrow>
              GasPrice b = Some (spec_tipCap b) \<and> GasPrice b = Some (spec_feeCap b))"
proof -
  have "cmp (Some a) (Some b) (Some fee) = Inr (spec_compare a b fee)"
    using assms by (rule cmp_spec_compare)
  moreover have "Type t \<noteq> DynamicFeeTx \<longrightarrow>
      GasPrice t = Some (spec_tipCap t) \<and> GasPrice t = Some (spec_feeCap t)"
    if "fee_populated t" for t
    using fee_populated_caps [OF that] by (auto simp: GetGasTipCap_def GetGasFeeCap_def)
  ultimately show ?thesis using assms by blast
qed

theorem cmp_three_tiers_witness:
  "fee_populated (dynamic_tx 1 50 200 1) \<and> fee_populated (dynamic_tx 1 80 150 2)
   \<and> fee_populated (legacy_tx 1 70 3)
   \<and> cmp (Some (dynamic_tx 1 50 200 1)) (Some (dynamic_tx 1 80 150 2)) (Some 100) = Inr 1
   \<and> cmp (Some (legacy_tx 1 70 3)) (Some (dynamic_tx 1 80 150 2)) (Some 0) = Inr (- 1)
   \<and> GasPrice (legacy_tx 1 70 3) = Some (spec_feeCap (legacy_tx 1 70 3))"
proof -
  have a: "fee_populated (dynamic_tx 1 50 200 1)"
    and b: "fee_populated (dynamic_tx 1 80 150 2)"
    and c: "fee_populated (legacy_tx 1 70 3)"
    by (simp_all add: fee_populated_def GetGasTipCap_def GetGasFeeCap_def dynamic_tx_def
        legacy_tx_def LegacyTx_def DynamicFeeTx_def)
  have s1: "spec_compare (dynamic_tx 1 50 200 1) (dynamic_tx 1 80 150 2) 100 = 1"
    by (simp add: spec_compare_def spec_effectiveTip_def spec_tipCap_def spec_feeCap_def
        larger_wins_def dynamic_tx_def)
  have s2: "spec_compare (legacy_tx 1 70 3) (dynamic_tx 1 80 150 2) 0 = - 1"
    by (simp add: spec_compare_def spec_effectiveTip_def spec_tipCap_def spec_feeCap_def
        larger_wins_def dynamic_tx_def legacy_tx_def LegacyTx_def DynamicFeeTx_def)
  have ty: "Type (legacy_tx 1 70 3) \<noteq> DynamicFeeTx"
    by (simp add: legacy_tx_def LegacyTx_def DynamicFeeTx_def)
  have r1: "cmp (Some (dynamic_tx 1 50 200 1)) (Some (dynamic_tx 1 80 150 2)) (Some 100) = Inr 1"
    using cmp_three_tiers [OF a b, of 100] s1 by simp
  have r2: "cmp (Some (legacy_tx 1 70 3)) (Some (dynamic_tx 1 80 150 2)) (Some 0) = Inr (- 1)"
    using cmp_three_tiers [OF c b, of 0] s2 by simp
  have r3: "GasPrice (legacy_tx 1 70 3) = Some (spec_feeCap (legacy_tx 1 70 3))"
    using cmp_three_tiers [OF c b, of 0] ty by blast
  from a b c r1 r2 r3 show ?thesis by blast
qed

lemma spec_compare_caps_eq:
  "spec_compare a b fee
     = spec_compare_caps (spec_tipCap a) (spec_feeCap a) (spec_tipCap b) (spec_feeCap b) fee"
  by (simp add: spec_compare_def spec_compare_caps_def spec_effectiveTip_def)

lemma spec_compare_caps_price:
  "0 \<le> fee \<Longrightarrow> spec_compare_caps p p r r fee = larger_wins p r"
  by (auto simp: spec_compare_caps_def larger_wins_def min_def)

lemma non_dynamic_caps:
  assumes "Type t \<noteq> DynamicFeeTx" "GasPrice t = Some p"
  shows "fee_populated t" "spec_tipCap t = p" "spec_feeCap t = p"
  using assms by (simp_all add: fee_populated_def GetGasTipCap_def GetGasFeeCap_def
      spec_tipCap_def spec_feeCap_def)

text \<open>
  C10. For every record whose type is not \<open>DynamicFeeTx\<close> (\<open>StateTx\<close> is such a
  type, as \<open>LegacyTx\<close> is), \<open>GetGasTipCap\<close> and \<open>GetGasFeeCap\<close> both return the
  record's \<open>GasPrice\<close>, and the comparator gives the record, on either side and
  under every base fee, the result it gives the same record retyped as \<open>LegacyTx\<close>.
  When the gas price is set to \<open>p\<close>, the comparator's result against any record with
  populated fee fields, under any non-negative base fee, is the three-tier comparison in
  which this record contributes \<open>p\<close> as its tip cap and \<open>p\<close> as its fee cap, whatever
  its \<open>GasTipCap\<close> and \<open>GasFeeCap\<close> fields hold; against another record that is not
  of the dynamic-fee type it is the comparison of the two gas prices.
\<close>

theorem non_dynamic_fee_is_legacy:
  "StateTx \<noteq> DynamicFeeTx \<and> LegacyTx \<noteq> DynamicFeeTx \<and>
   (Type t \<noteq> DynamicFeeTx \<longrightarrow>
      GetGasTipCap t = GasPrice t \<and> GetGasFeeCap t = GasPrice t
      \<and> cmp (Some t) b fee = cmp (Some (t\<lparr>Type := LegacyTx\<rparr>)) b fee
      \<and> cmp b (Some t) fee = cmp b (Some (t\<lparr>Type := LegacyTx\<rparr>)) fee
      \<and> (\<forall>p u bf. GasPrice t = Some p \<and> fee_populated u \<and> 0 \<le> bf \<longrightarrow>
            cmp (Some t) (Some u) (Some bf)
              = Inr (spec_compare_caps p p (spec_tipCap u) (spec_feeCap u) bf)
            \<and> cmp (Some u) (Some t) (Some bf)
              = Inr (spec_compare_caps (spec_tipCap u) (spec_feeCap u) p p bf)
            \<and> (\<forall>r. Type u \<noteq> DynamicFeeTx \<and> GasPrice u = Some r \<longrightarrow>
                  cmp (Some t) (Some u) (Some bf) = Inr (larger_wins p r))))"
proof -
  have types: "StateTx \<noteq> DynamicFeeTx" "LegacyTx \<noteq> DynamicFeeTx"
    by (simp_all add: StateTx_def LegacyTx_def DynamicFeeTx_def)
  have caps: "GetGasTipCap t = GasPrice t" "GetGasFeeCap t = GasPrice t"
    "GetGasTipCap (t\<lparr>Type := LegacyTx\<rparr>) = GasPrice t"
    "GetGasFeeCap (t\<lparr>Type := LegacyTx\<rparr>) = GasPrice t"
    if "Type t \<noteq> DynamicFeeTx"
    using that types by (simp_all add: GetGasTipCap_def GetGasFeeCap_def)
  have eff: "EffectiveGasTip t fee = EffectiveGasTip (t\<lparr>Type := LegacyTx\<rparr>) fee"
    if "Type t \<noteq> DynamicFeeTx"
    by (cases fee) (simp_all add: EffectiveGasTip_def caps [OF that])
  have retype: "cmp (Some t) b fee = cmp (Some (t\<lparr>Type := LegacyTx\<rparr>)) b fee"
    "cmp b (Some t) fee = cmp b (Some (t\<lparr>Type := LegacyTx\<rparr>)) fee"
    if "Type t \<noteq> DynamicFeeTx"
    by (simp_all add: cmp_def deref_def eff [OF that] caps [OF that] cong: if_cong)
  have pinned: "cmp (Some t) (Some u) (Some bf)
              = Inr (spec_compare_caps p p (spec_tipCap u) (spec_feeCap u) bf)
            \<and> cmp (Some u) (Some t) (Some bf)
              = Inr (spec_compare_caps (spec_tipCap u) (spec_feeCap u) p p bf)
            \<and> (\<forall>r. Type u \<noteq> DynamicFeeTx \<and> GasPrice u = Some r \<longrightarrow>
                  cmp (Some t) (Some u) (Some bf) = Inr (larger_wins p r))"
    if "Type t \<noteq> DynamicFeeTx" "GasPrice t = Some p" "fee_populated u" "0 \<le> bf" for p u bf
  proof -
    note c = non_dynamic_caps [OF that(1,2)]
    have 1: "cmp (Some t) (Some u) (Some bf)
              = Inr (spec_compare_caps p p (spec_tipCap u) (spec_feeCap u) bf)"
      using cmp_spec_compare [OF c(1) that(3,4)] by (simp add: spec_compare_caps_eq c)
    have 2: "cmp (Some u) (Some t) (Some bf)
              = Inr (spec_compare_caps (spec_tipCap u) (spec_feeCap u) p p bf)"
      using cmp_spec_compare [OF that(3) c(1) that(4)] by (simp add: spec_compare_caps_eq c)
    have 3: "cmp (Some t) (Some u) (Some bf) = Inr (larger_wins p r)"
      if "Type u \<noteq> DynamicFeeTx" "GasPrice u = Some r" for r
      using 1 non_dynamic_caps(2,3) [OF that] spec_compare_caps_price [OF \<open>0 \<le> bf\<close>] by simp
    from 1 2 3 show ?thesis by blast
  qed
  from types caps retype pinned show ?thesis by blast
qed

theorem non_dynamic_fee_is_legacy_witness:
  "Type (state_tx 4 30 9) \<noteq> DynamicFeeTx
   \<and> GetGasTipCap (state_tx 4 30 9) = Some 30 \<and> GetGasFeeCap (state_tx 4 30 9) = Some 30
   \<and> cmp (Some (state_tx 4 30 9)) (Some (dynamic_tx 1 80 150 2)) (Some 100)
       = cmp (Some (legacy_tx 4 30 9)) (Some (dynamic_tx 1 80 150 2)) (Some 100)
   \<and> fee_populated (dynamic_tx 1 80 150 2) \<and> fee_populated (legacy_tx 5 20 8)
   \<and> cmp (Some (state_tx 4 30 9)) (Some (dynamic_tx 1 80 150 2)) (Some 100) = Inr (- 1)
   \<and> cmp (Some (dynamic_tx 1 80 150 2)) (Some (state_tx 4 30 9)) (Some 0) = Inr 1
   \<and> cmp (Some (state_tx 4 30 9)) (Some (legacy_tx 5 20 8)) (Some 7) = Inr 1"
proof -
  let ?t = "state_tx 4 30 9" and ?d = "dynamic_tx 1 80 150 2" and ?l = "legacy_tx 5 20 8"
  have ty: "Type ?t \<noteq> DynamicFeeTx"
    by (simp add: state_tx_def StateTx_def DynamicFeeTx_def)
  have re: "?t\<lparr>Type := LegacyTx\<rparr> = legacy_tx 4 30 9"
    by (simp add: state_tx_def legacy_tx_def)
  have gp: "GasPrice ?t = Some 30"
    by (simp add: state_tx_def)
  have fd: "fee_populated ?d" and fl: "fee_populated ?l"
    by (simp_all add: fee_populated_def GetGasTipCap_def GetGasFeeCap_def dynamic_tx_def
        legacy_tx_def LegacyTx_def DynamicFeeTx_def)
  have tyl: "Type ?l \<noteq> DynamicFeeTx" "GasPrice ?l = Some 20"
    by (simp_all add: legacy_tx_def LegacyTx_def DynamicFeeTx_def)
  have capsd: "spec_tipCap ?d = 80" "spec_feeCap ?d = 150"
    by (simp_all add: spec_tipCap_def spec_feeCap_def dynamic_tx_def)
  have v1: "spec_compare_caps 30 30 80 150 100 = - 1"
    and v2: "spec_compare_caps 80 150 30 30 0 = 1" and v3: "larger_wins 30 20 = 1"
    by (simp_all add: spec_compare_caps_def larger_wins_def)
  note th = non_dynamic_fee_is_legacy [of ?t "Some ?d" "Some 100"]
  from th ty gp re
  have a: "GetGasTipCap ?t = Some 30 \<and> GetGasFeeCap ?t = Some 30
      \<and> cmp (Some ?t) (Some ?d) (Some 100) = cmp (Some (legacy_tx 4 30 9)) (Some ?d) (Some 100)"
    by simp
  from th ty have pin: "\<forall>p u bf. GasPrice ?t = Some p \<and> fee_populated u \<and> 0 \<le> bf \<longrightarrow>
            cmp (Some ?t) (Some u) (Some bf)
              = Inr (spec_compare_caps p p (spec_tipCap u) (spec_feeCap u) bf)
            \<and> cmp (Some u) (Some ?t) (Some bf)
              = Inr (spec_compare_caps (spec_tipCap u) (spec_feeCap u) p p bf)
            \<and> (\<forall>r. Type u \<noteq> DynamicFeeTx \<and> GasPrice u = Some r \<longrightarrow>
                  cmp (Some ?t) (Some u) (Some bf) = Inr (larger_wins p r))"
    by blast
  from pin [rule_format, of 30 ?d 100] gp fd capsd v1
  have b: "cmp (Some ?t) (Some ?d) (Some 100) = Inr (- 1)" by simp
  from pin [rule_format, of 30 ?d 0] gp fd capsd v2
  have c: "cmp (Some ?d) (Some ?t) (Some 0) = Inr 1" by simp
  have "(0::int) \<le> 7" by simp
  with pin [rule_format, of 30 ?l 7] gp fl
  have "Type ?l \<noteq> DynamicFeeTx \<and> GasPrice ?l = Some 20 \<longrightarrow>
      cmp (Some ?t) (Some ?l) (Some 7) = Inr (larger_wins 30 20)"
    by blast
  with tyl v3 have d: "cmp (Some ?t) (Some ?l) (Some 7) = Inr 1" by simp
  from ty a b c d fd fl show ?thesis by blast
qed

section \<open>Heap order\<close>

text \<open>
  The notions the proofs about \<open>container/heap\<close> use. An implementation of the
  interface is a slice heap for a key function into a linear order when \<open>Len\<close> and
  \<open>Swap\<close> are the slice operations and \<open>Less\<close>, on elements of a set \<open>W\<close>, returns
  normally and compares keys. A slice is heap-ordered from index \<open>k\<close> up to \<open>n\<close> when no
  element below \<open>n\<close> whose parent is at \<open>k\<close> or beyond has a smaller key than its
  parent.
\<close>

definition at :: "'a list \<Rightarrow> int \<Rightarrow> 'a" where
  "at s i = s ! nat i"

definition slice_heap :: "'a Interface \<Rightarrow> ('a \<Rightarrow> 'k::linorder) \<Rightarrow> 'a set \<Rightarrow> bool" where
  "slice_heap h key W \<longleftrightarrow>
     (\<forall>s. Len h s = int (length s)) \<and>
     (\<forall>s i j. Swap h s i j = slice_Swap s i j) \<and>
     (\<forall>s i j. 0 \<le> i \<and> i < int (length s) \<and> 0 \<le> j \<and> j < int (length s) \<and> set s \<subseteq> W
        \<longrightarrow> Less h s i j = Inr (key (at s i) < key (at s j)))"

definition heap_from :: "('a \<Rightarrow> 'k::linorder) \<Rightarrow> 'a list \<Rightarrow> int \<Rightarrow> int \<Rightarrow> bool" where
  "heap_from key s k n \<longleftrightarrow>
     (\<forall>c. 0 < c \<and> c < n \<and> k \<le> (c - 1) div 2 \<longrightarrow> key (at s ((c - 1) div 2)) \<le> key (at s c))"

lemma slice_heap_Less:
  assumes "slice_heap h key W" "set s \<subseteq> W" "0 \<le> i" "i < int (length s)" "0 \<le> j" "j < int (length s)"
  shows "Less h s i j = Inr (key (at s i) < key (at s j))"
  using assms unfolding slice_heap_def by blast

lemma slice_heap_Swap:
  assumes "slice_heap h key W" "0 \<le> i" "i < int (length s)" "0 \<le> j" "j < int (length s)"
  shows "Swap h s i j = Inr (s[nat i := at s j, nat j := at s i])"
  using assms unfolding slice_heap_def by (simp add: slice_Swap_def slice_index_def at_def)

lemma at_swap:
  assumes "0 \<le> i" "i < int (length s)" "0 \<le> j" "j < int (length s)" "0 \<le> m"
  shows "at (s[nat i := y, nat j := x]) m = (if m = j then x else if m = i then y else at s m)"
  using assms by (auto simp: at_def nth_list_update)

lemma mset_swap_at:
  assumes "0 \<le> i" "i < int (length s)" "0 \<le> j" "j < int (length s)"
  shows "mset (s[nat i := at s j, nat j := at s i]) = mset s"
  using assms by (simp add: at_def mset_swap)

lemma heap_down_correct:
  fixes key :: "'a \<Rightarrow> 'k::linorder"
  shows "slice_heap h key W \<Longrightarrow> set s \<subseteq> W \<Longrightarrow> 0 \<le> k \<Longrightarrow> k \<le> i \<Longrightarrow> n \<le> int (length s) \<Longrightarrow>
     (\<forall>c. 0 < c \<and> c < n \<and> k \<le> (c - 1) div 2 \<and> (c - 1) div 2 \<noteq> i
          \<longrightarrow> key (at s ((c - 1) div 2)) \<le> key (at s c)) \<Longrightarrow>
     (0 < i \<and> k \<le> (i - 1) div 2 \<longrightarrow>
        (\<forall>c. 0 < c \<and> c < n \<and> (c - 1) div 2 = i \<longrightarrow> key (at s ((i - 1) div 2)) \<le> key (at s c))) \<Longrightarrow>
     \<exists>s'. heap_down h s i n = Inr s' \<and> mset s' = mset s
          \<and> (\<forall>m. 0 \<le> m \<and> (m < i \<or> n \<le> m) \<longrightarrow> at s' m = at s m)
          \<and> heap_from key s' k n"
proof (induction h s i n rule: heap_down.induct)
  case (1 h s i n)
  note sh = "1.prems"(1) and W = "1.prems"(2) and k0 = "1.prems"(3) and ki = "1.prems"(4)
    and nl = "1.prems"(5) and others = "1.prems"(6) and grand = "1.prems"(7)
  define j1 where "j1 = 2 * i + 1"
  have i0: "0 \<le> i" using k0 ki by simp
  show ?case
  proof (cases "n \<le> j1 \<or> j1 < 0")
    case True
    have run: "heap_down h s i n = Inr s"
      using True by (subst heap_down.simps) (simp add: j1_def Let_def)
    have "heap_from key s k n"
      unfolding heap_from_def
    proof (intro allI impI)
      fix c assume c: "0 < c \<and> c < n \<and> k \<le> (c - 1) div 2"
      have "(c - 1) div 2 \<noteq> i" using c True i0 by (auto simp: j1_def)
      with c others show "key (at s ((c - 1) div 2)) \<le> key (at s c)" by blast
    qed
    with run show ?thesis by simp
  next
    case False
    then have j1n: "j1 < n" and j10: "0 \<le> j1" by auto
    define r where "r \<longleftrightarrow> j1 + 1 < n \<and> key (at s (j1 + 1)) < key (at s j1)"
    have first: "(if j1 + 1 < n then Less h s (j1 + 1) j1 else Inr False) = Inr r"
      using slice_heap_Less [OF sh W, of "j1 + 1" j1] j1n j10 nl by (auto simp: r_def)
    define j where "j = (if r then j1 + 1 else j1)"
    have jn: "j < n" and ij: "i < j" and pj: "(j - 1) div 2 = i" and j0: "0 < j"
      using j1n i0 by (auto simp: j_def r_def j1_def)
    have child: "key (at s j) \<le> key (at s c)" if "0 < c" "c < n" "(c - 1) div 2 = i" for c
    proof -
      have "c = j1 \<or> c = j1 + 1" using that by (auto simp: j1_def)
      then show ?thesis using that by (auto simp: j_def r_def)
    qed
    have second: "Less h s j i = Inr (key (at s j) < key (at s i))"
      using slice_heap_Less [OF sh W, of j i] jn ij i0 nl by simp
    show ?thesis
    proof (cases "key (at s j) < key (at s i)")
      case False
      have run: "heap_down h s i n = Inr s"
        using \<open>\<not> (n \<le> j1 \<or> j1 < 0)\<close> first second False
        by (subst heap_down.simps) (simp add: j1_def [symmetric] j_def [symmetric] Let_def)
      have "heap_from key s k n"
        unfolding heap_from_def
      proof (intro allI impI)
        fix c assume c: "0 < c \<and> c < n \<and> k \<le> (c - 1) div 2"
        show "key (at s ((c - 1) div 2)) \<le> key (at s c)"
        proof (cases "(c - 1) div 2 = i")
          case True
          with child [of c] c False show ?thesis by auto
        next
          case False
          with c others show ?thesis by blast
        qed
      qed
      with run show ?thesis by simp
    next
      case True
      define s' where "s' = s[nat i := at s j, nat j := at s i]"
      have swap: "Swap h s i j = Inr s'"
        using slice_heap_Swap [OF sh, of i s j] i0 ij jn nl by (simp add: s'_def)
      have at': "at s' m = (if m = j then at s i else if m = i then at s j else at s m)"
        if "0 \<le> m" for m
        unfolding s'_def using at_swap [of i s j m] that i0 ij jn nl by simp
      have ms: "mset s' = mset s"
        unfolding s'_def using mset_swap_at [of i s j] i0 ij jn nl by simp
      then have W': "set s' \<subseteq> W" using W by (metis set_mset_mset)
      have len': "n \<le> int (length s')" using nl by (simp add: s'_def)
      have others': "\<forall>c. 0 < c \<and> c < n \<and> k \<le> (c - 1) div 2 \<and> (c - 1) div 2 \<noteq> j
          \<longrightarrow> key (at s' ((c - 1) div 2)) \<le> key (at s' c)"
      proof (intro allI impI)
        fix c assume c: "0 < c \<and> c < n \<and> k \<le> (c - 1) div 2 \<and> (c - 1) div 2 \<noteq> j"
        let ?p = "(c - 1) div 2"
        have p0: "0 \<le> ?p" using c by simp
        show "key (at s' ?p) \<le> key (at s' c)"
        proof (cases "?p = i")
          case True
          then have "key (at s j) \<le> key (at s c)" using child [of c] c by simp
          moreover have "at s' ?p = at s j" using at' [OF p0] True ij by simp
          moreover have "at s' c = (if c = j then at s i else at s c)"
            using at' [of c] c True by auto
          ultimately show ?thesis using \<open>key (at s j) < key (at s i)\<close> by auto
        next
          case False
          then have pc: "key (at s ?p) \<le> key (at s c)" using c others by blast
          have "at s' ?p = at s ?p" using at' [OF p0] False c by simp
          moreover have "key (at s ?p) \<le> key (at s' c)"
          proof (cases "c = i")
            case True
            then have "0 < i \<and> k \<le> (i - 1) div 2" using c by simp
            with grand pj jn j0 have "key (at s ((i - 1) div 2)) \<le> key (at s j)" by blast
            moreover have "at s' c = at s j" using at' [of c] True ij i0 by simp
            ultimately show ?thesis using True by simp
          next
            case False
            have "c \<noteq> j" using \<open>?p \<noteq> i\<close> pj by auto
            then have "at s' c = at s c" using at' [of c] c False by simp
            with pc show ?thesis by simp
          qed
          ultimately show ?thesis by simp
        qed
      qed
      have grand': "0 < j \<and> k \<le> (j - 1) div 2 \<longrightarrow>
          (\<forall>c. 0 < c \<and> c < n \<and> (c - 1) div 2 = j
             \<longrightarrow> key (at s' ((j - 1) div 2)) \<le> key (at s' c))"
      proof (intro allI impI)
        fix c assume "0 < j \<and> k \<le> (j - 1) div 2" and c: "0 < c \<and> c < n \<and> (c - 1) div 2 = j"
        have "c \<noteq> j" "c \<noteq> i" using c ij by auto
        then have "at s' c = at s c" using at' [of c] c by simp
        moreover have "at s' ((j - 1) div 2) = at s j" using at' [of i] pj i0 ij by simp
        moreover have "key (at s j) \<le> key (at s c)"
          using others c ij ki by (metis less_le order_trans)
        ultimately show "key (at s' ((j - 1) div 2)) \<le> key (at s' c)" by simp
      qed
      have kj: "k \<le> j" using ki ij by simp
      from "1.IH" [OF j1_def \<open>\<not> (n \<le> j1 \<or> j1 < 0)\<close> first j_def second _ swap sh W' k0 kj len' others' grand'] True
      obtain s'' where rec: "heap_down h s' j n = Inr s''" and ms'': "mset s'' = mset s'"
        and frame: "\<forall>m. 0 \<le> m \<and> (m < j \<or> n \<le> m) \<longrightarrow> at s'' m = at s' m" and hf: "heap_from key s'' k n"
        by auto
      have run: "heap_down h s i n = Inr s''"
        using \<open>\<not> (n \<le> j1 \<or> j1 < 0)\<close> first second True swap rec
        by (subst heap_down.simps) (simp add: j1_def [symmetric] j_def [symmetric] Let_def)
      have "at s'' m = at s m" if "0 \<le> m \<and> (m < i \<or> n \<le> m)" for m
        using frame at' [of m] that ij jn by auto
      with run ms ms'' hf show ?thesis by simp
    qed
  qed
qed


lemma quo_parent: "0 < j \<Longrightarrow> quo (j - 1) 2 = (j - 1) div 2"
  by (auto simp: quo_def sgn_if)

lemma quo_nonpos: "quo (0 - 1) 2 = 0" "quo (- 1 - 1) 2 = - 1"
  by (simp_all add: quo_def)

lemma heap_up_correct:
  fixes key :: "'a \<Rightarrow> 'k::linorder"
  shows "slice_heap h key W \<Longrightarrow> set s \<subseteq> W \<Longrightarrow> 0 \<le> j \<Longrightarrow> j < int (length s) \<Longrightarrow>
     (\<forall>c. 0 < c \<and> c < int (length s) \<and> c \<noteq> j
          \<longrightarrow> key (at s ((c - 1) div 2)) \<le> key (at s c)) \<Longrightarrow>
     (0 < j \<longrightarrow> (\<forall>c. 0 < c \<and> c < int (length s) \<and> (c - 1) div 2 = j
          \<longrightarrow> key (at s ((j - 1) div 2)) \<le> key (at s c))) \<Longrightarrow>
     \<exists>s'. heap_up h s j = Inr s' \<and> mset s' = mset s \<and> heap_from key s' 0 (int (length s'))"
proof (induction h s j rule: heap_up.induct)
  case (1 h s j)
  note sh = "1.prems"(1) and W = "1.prems"(2) and j0 = "1.prems"(3) and jn = "1.prems"(4)
    and others = "1.prems"(5) and grand = "1.prems"(6)
  define i where "i = quo (j - 1) 2"
  show ?case
  proof (cases "i = j")
    case True
    have run: "heap_up h s j = Inr s"
      using True by (subst heap_up.simps) (simp add: i_def Let_def)
    have "j = 0"
    proof (rule ccontr)
      assume "j \<noteq> 0"
      then have "0 < j" using j0 by simp
      then have "i < j" using quo_parent [of j] by (simp add: i_def)
      with True show False by simp
    qed
    then have "heap_from key s 0 (int (length s))"
      using others by (auto simp: heap_from_def)
    with run show ?thesis by simp
  next
    case False
    have jpos: "0 < j"
    proof (rule ccontr)
      assume "\<not> 0 < j"
      then have "j = 0" using j0 by simp
      then show False using False quo_nonpos(1) by (simp add: i_def)
    qed
    have i_eq: "i = (j - 1) div 2" using quo_parent [OF jpos] by (simp add: i_def)
    have i0: "0 \<le> i" and ij: "i < j" using jpos by (auto simp: i_eq)
    have less: "Less h s j i = Inr (key (at s j) < key (at s i))"
      using slice_heap_Less [OF sh W, of j i] i0 ij jn j0 by simp
    show ?thesis
    proof (cases "key (at s j) < key (at s i)")
      case False
      have run: "heap_up h s j = Inr s"
        using \<open>i \<noteq> j\<close> less False
        by (subst heap_up.simps) (simp add: i_def [symmetric] Let_def)
      have "heap_from key s 0 (int (length s))"
        unfolding heap_from_def
      proof (intro allI impI)
        fix c assume c: "0 < c \<and> c < int (length s) \<and> 0 \<le> (c - 1) div 2"
        show "key (at s ((c - 1) div 2)) \<le> key (at s c)"
          using c others False i_eq by (cases "c = j") auto
      qed
      with run show ?thesis by simp
    next
      case True
      define s' where "s' = s[nat i := at s j, nat j := at s i]"
      have swap: "Swap h s i j = Inr s'"
        using slice_heap_Swap [OF sh, of i s j] i0 ij jn by (simp add: s'_def)
      have at': "at s' m = (if m = j then at s i else if m = i then at s j else at s m)"
        if "0 \<le> m" for m
        unfolding s'_def using at_swap [of i s j m] that i0 ij jn by simp
      have ms: "mset s' = mset s"
        unfolding s'_def using mset_swap_at [of i s j] i0 ij jn by simp
      then have W': "set s' \<subseteq> W" using W by (metis set_mset_mset)
      have len': "length s' = length s" by (simp add: s'_def)
      have edge_i: "key (at s ((i - 1) div 2)) \<le> key (at s i)" if "0 < i"
        using others that ij jn by auto
      have others': "\<forall>c. 0 < c \<and> c < int (length s') \<and> c \<noteq> i
          \<longrightarrow> key (at s' ((c - 1) div 2)) \<le> key (at s' c)"
      proof (intro allI impI)
        fix c assume c: "0 < c \<and> c < int (length s') \<and> c \<noteq> i"
        let ?p = "(c - 1) div 2"
        have p0: "0 \<le> ?p" and pc: "?p < c" using c by auto
        show "key (at s' ?p) \<le> key (at s' c)"
        proof (cases "c = j")
          case True
          then show ?thesis
            using at' [of j] at' [of i] i0 ij i_eq \<open>key (at s j) < key (at s i)\<close> by simp
        next
          case False
          then have c': "at s' c = at s c" using at' [of c] c by simp
          have ok: "key (at s ?p) \<le> key (at s c)" using others c False len' by simp
          show ?thesis
          proof (cases "?p = i")
            case True
            then show ?thesis
              using at' [of i] i0 ij c' ok \<open>key (at s j) < key (at s i)\<close> by auto
          next
            case False
            show ?thesis
            proof (cases "?p = j")
              case True
              then have "key (at s i) \<le> key (at s c)"
                using grand jpos c len' i_eq by auto
              then show ?thesis using at' [of j] True c' jpos by simp
            next
              case False
              then show ?thesis using at' [OF p0] \<open>?p \<noteq> i\<close> c' ok by simp
            qed
          qed
        qed
      qed
      have grand': "0 < i \<longrightarrow> (\<forall>c. 0 < c \<and> c < int (length s') \<and> (c - 1) div 2 = i
          \<longrightarrow> key (at s' ((i - 1) div 2)) \<le> key (at s' c))"
      proof (intro allI impI)
        fix c assume ipos: "0 < i" and c: "0 < c \<and> c < int (length s') \<and> (c - 1) div 2 = i"
        have g: "at s' ((i - 1) div 2) = at s ((i - 1) div 2)"
          using at' [of "(i - 1) div 2"] ipos ij by auto
        show "key (at s' ((i - 1) div 2)) \<le> key (at s' c)"
        proof (cases "c = j")
          case True
          then show ?thesis using g at' [of j] jpos edge_i [OF ipos] by simp
        next
          case False
          have "c \<noteq> i" using c by auto
          then have "at s' c = at s c" using at' [of c] c False by simp
          moreover have "key (at s i) \<le> key (at s c)" using others c False len' by auto
          ultimately show ?thesis using g edge_i [OF ipos] by simp
        qed
      qed
      have jn': "i < int (length s')" using ij jn len' by simp
      from "1.IH" [OF i_def \<open>i \<noteq> j\<close> less _ swap sh W' i0 jn' others' grand'] True
      obtain s'' where rec: "heap_up h s' i = Inr s''" and ms'': "mset s'' = mset s'"
        and hf: "heap_from key s'' 0 (int (length s''))"
        by auto
      have run: "heap_up h s j = Inr s''"
        using \<open>i \<noteq> j\<close> less True swap rec
        by (subst heap_up.simps) (simp add: i_def [symmetric] Let_def)
      with ms ms'' hf show ?thesis by simp
    qed
  qed
qed


definition heap_ok :: "('a \<Rightarrow> 'k::linorder) \<Rightarrow> 'a list \<Rightarrow> bool" where
  "heap_ok key s = heap_from key s 0 (int (length s))"

lemma heap_from_nonpos: "k \<le> 0 \<Longrightarrow> heap_from key s k n = heap_from key s 0 n"
  unfolding heap_from_def by (intro iff_allI) auto

lemma Init_loop_correct:
  fixes key :: "'a \<Rightarrow> 'k::linorder"
  shows "slice_heap h key W \<Longrightarrow> set s \<subseteq> W \<Longrightarrow> n \<le> int (length s) \<Longrightarrow>
     heap_from key s (i + 1) n \<Longrightarrow>
     \<exists>s'. Init_loop h s i n = Inr s' \<and> mset s' = mset s \<and> heap_from key s' 0 n"
proof (induction h s i n rule: Init_loop.induct)
  case (1 h s i n)
  note sh = "1.prems"(1) and W = "1.prems"(2) and nl = "1.prems"(3) and hf = "1.prems"(4)
  show ?case
  proof (cases "0 \<le> i")
    case False
    then have "Init_loop h s i n = Inr s" by (subst Init_loop.simps) simp
    moreover have "heap_from key s 0 n" using hf heap_from_nonpos [of "i + 1" key s n] False by simp
    ultimately show ?thesis by simp
  next
    case True
    have others: "\<forall>c. 0 < c \<and> c < n \<and> i \<le> (c - 1) div 2 \<and> (c - 1) div 2 \<noteq> i
          \<longrightarrow> key (at s ((c - 1) div 2)) \<le> key (at s c)"
      using hf by (auto simp: heap_from_def)
    have grand: "0 < i \<and> i \<le> (i - 1) div 2 \<longrightarrow>
        (\<forall>c. 0 < c \<and> c < n \<and> (c - 1) div 2 = i \<longrightarrow> key (at s ((i - 1) div 2)) \<le> key (at s c))"
      by auto
    from heap_down_correct [OF sh W True order_refl nl others grand]
    obtain s' where d: "heap_down h s i n = Inr s'" and ms: "mset s' = mset s"
      and hf': "heap_from key s' i n" by auto
    have W': "set s' \<subseteq> W" using W ms by (metis set_mset_mset)
    have nl': "n \<le> int (length s')" using nl ms by (metis size_mset)
    from "1.IH" [OF True d sh W' nl'] hf'
    obtain s'' where "Init_loop h s' (i - 1) n = Inr s''" "mset s'' = mset s'"
      "heap_from key s'' 0 n" by auto
    moreover have "Init_loop h s i n = Init_loop h s' (i - 1) n"
      using True d by (subst Init_loop.simps) simp
    ultimately show ?thesis using ms by simp
  qed
qed

lemma heap_Init_correct:
  fixes key :: "'a \<Rightarrow> 'k::linorder"
  assumes "slice_heap h key W" "set s \<subseteq> W"
  shows "\<exists>s'. heap_Init h s = Inr s' \<and> mset s' = mset s \<and> heap_ok key s'"
proof -
  let ?n = "int (length s)"
  have len: "Len h s = ?n" using assms(1) by (simp add: slice_heap_def)
  have q: "quo ?n 2 = ?n div 2" by (auto simp: quo_def sgn_if)
  have "heap_from key s (quo ?n 2 - 1 + 1) ?n"
    unfolding heap_from_def q by (intro allI impI) linarith
  from Init_loop_correct [OF assms order_refl this]
  obtain s' where "Init_loop h s (quo ?n 2 - 1) ?n = Inr s'" "mset s' = mset s"
    "heap_from key s' 0 ?n" by auto
  moreover from this have "length s' = length s" by (metis size_mset)
  ultimately show ?thesis by (simp add: heap_Init_def len heap_ok_def)
qed

lemma heap_ok_root:
  fixes key :: "'a \<Rightarrow> 'k::linorder"
  assumes "heap_from key s 0 n" "n \<le> int (length s)"
  shows "m < nat n \<Longrightarrow> key (s ! 0) \<le> key (s ! m)"
proof (induction m rule: less_induct)
  case (less m)
  show ?case
  proof (cases "m = 0")
    case True
    then show ?thesis by simp
  next
    case False
    let ?p = "(m - 1) div 2"
    have "?p < m" using False by auto
    then have "key (s ! 0) \<le> key (s ! ?p)" using less by simp
    moreover have "key (at s ((int m - 1) div 2)) \<le> key (at s (int m))"
      using assms(1) False less.prems unfolding heap_from_def by auto
    moreover have "nat ((int m - 1) div 2) = ?p" using False by (simp add: nat_div_distrib nat_diff_distrib)
    ultimately show ?thesis by (simp add: at_def)
  qed
qed

lemma heap_ok_min:
  fixes key :: "'a \<Rightarrow> 'k::linorder"
  assumes "heap_ok key s" "y \<in> set s"
  shows "key (s ! 0) \<le> key y"
proof -
  from assms(2) obtain m where "m < length s" "s ! m = y" by (auto simp: in_set_conv_nth)
  then show ?thesis using heap_ok_root [of key s "int (length s)" m] assms(1)
    by (auto simp: heap_ok_def)
qed

lemma at_append:
  "0 \<le> c \<Longrightarrow> c < int (length s) \<Longrightarrow> at (s @ [a]) c = at s c"
  by (simp add: at_def nth_append nat_less_iff)

lemma heap_Push_correct:
  fixes key :: "TxPtr \<Rightarrow> 'k::linorder"
  assumes "slice_heap h key W" "tx_ops h" "set s \<subseteq> W" "a \<in> W" "heap_ok key s"
  shows "\<exists>s'. heap_Push h s (TransactionValue a) = Inr s' \<and> mset s' = add_mset a (mset s)
           \<and> heap_ok key s'"
proof -
  let ?s = "s @ [a]" and ?j = "int (length s)"
  have push: "Push h s (TransactionValue a) = ?s" using assms(2) by (simp add: tx_ops_def)
  have len: "Len h ?s - 1 = ?j" using assms(2) by (simp add: tx_ops_def)
  have W: "set ?s \<subseteq> W" using assms(3,4) by simp
  have others: "\<forall>c. 0 < c \<and> c < int (length ?s) \<and> c \<noteq> ?j
      \<longrightarrow> key (at ?s ((c - 1) div 2)) \<le> key (at ?s c)"
  proof (intro allI impI)
    fix c assume c: "0 < c \<and> c < int (length ?s) \<and> c \<noteq> ?j"
    then have "c < ?j" by simp
    then have "at ?s c = at s c" "at ?s ((c - 1) div 2) = at s ((c - 1) div 2)"
      using c by (auto intro!: at_append)
    moreover have "key (at s ((c - 1) div 2)) \<le> key (at s c)"
      using assms(5) c \<open>c < ?j\<close> by (auto simp: heap_ok_def heap_from_def)
    ultimately show "key (at ?s ((c - 1) div 2)) \<le> key (at ?s c)" by simp
  qed
  have grand: "0 < ?j \<longrightarrow> (\<forall>c. 0 < c \<and> c < int (length ?s) \<and> (c - 1) div 2 = ?j
      \<longrightarrow> key (at ?s ((?j - 1) div 2)) \<le> key (at ?s c))"
    by auto
  have "\<exists>s'. heap_up h ?s ?j = Inr s' \<and> mset s' = mset ?s \<and> heap_from key s' 0 (int (length s'))"
    by (rule heap_up_correct [OF assms(1) W _ _ others grand]) simp_all
  then show ?thesis by (auto simp: heap_Push_def push len heap_ok_def Let_def)
qed

lemma heap_Pop_correct:
  fixes key :: "TxPtr \<Rightarrow> 'k::linorder"
  assumes "slice_heap h key W" "tx_ops h" "set s \<subseteq> W" "heap_ok key s" "s \<noteq> []"
  shows "\<exists>s'. heap_Pop h s = Inr (TransactionValue (s ! 0), s')
           \<and> mset s = add_mset (s ! 0) (mset s') \<and> heap_ok key s'"
proof -
  define n where "n = int (length s) - 1"
  have n0: "0 \<le> n" and nl: "n < int (length s)" using assms(5) by (auto simp: n_def)
  have len: "Len h s - 1 = n" using assms(2) by (simp add: tx_ops_def n_def)
  define s1 where "s1 = s[nat 0 := at s n, nat n := at s 0]"
  have l0: "(0::int) < int (length s)" using assms(5) by simp
  have swap: "Swap h s 0 n = Inr s1"
    unfolding s1_def by (rule slice_heap_Swap [OF assms(1) order_refl l0 n0 nl])
  have at1: "at s1 m = (if m = n then at s 0 else if m = 0 then at s n else at s m)"
    if "0 \<le> m" for m
    unfolding s1_def by (rule at_swap [OF order_refl l0 n0 nl that])
  have ms1: "mset s1 = mset s"
    unfolding s1_def by (rule mset_swap_at [OF order_refl l0 n0 nl])
  then have W1: "set s1 \<subseteq> W" using assms(3) by (metis set_mset_mset)
  have l1: "length s1 = length s" by (simp add: s1_def)
  have others: "\<forall>c. 0 < c \<and> c < n \<and> 0 \<le> (c - 1) div 2 \<and> (c - 1) div 2 \<noteq> 0
      \<longrightarrow> key (at s1 ((c - 1) div 2)) \<le> key (at s1 c)"
  proof (intro allI impI)
    fix c assume c: "0 < c \<and> c < n \<and> 0 \<le> (c - 1) div 2 \<and> (c - 1) div 2 \<noteq> 0"
    then have "at s1 c = at s c" "at s1 ((c - 1) div 2) = at s ((c - 1) div 2)"
      using at1 [of c] at1 [of "(c - 1) div 2"] by auto
    moreover have "key (at s ((c - 1) div 2)) \<le> key (at s c)"
      using assms(4) c nl by (auto simp: heap_ok_def heap_from_def)
    ultimately show "key (at s1 ((c - 1) div 2)) \<le> key (at s1 c)" by simp
  qed
  have "\<exists>s'. heap_down h s1 0 n = Inr s' \<and> mset s' = mset s1
          \<and> (\<forall>m. 0 \<le> m \<and> (m < 0 \<or> n \<le> m) \<longrightarrow> at s' m = at s1 m)
          \<and> heap_from key s' 0 n"
    by (rule heap_down_correct [OF assms(1) W1 order_refl order_refl _ others])
      (use nl l1 in auto)
  then obtain s2 where down: "heap_down h s1 0 n = Inr s2" and ms2: "mset s2 = mset s1"
    and frame: "at s2 n = at s1 n" and hf: "heap_from key s2 0 n"
    using n0 by auto
  have l2: "length s2 = length s" using ms2 l1 by (metis size_mset)
  have last: "s2 ! nat n = s ! 0" using frame at1 [of n] n0 by (simp add: at_def)
  have "Pop h s2 = and_then (slice_index s2 (int (length s2) - 1)) (\<lambda>x.
          Inr (TransactionValue x, take (nat (int (length s2) - 1)) s2))"
    using assms(2) by (simp add: tx_ops_def)
  then have pop: "Pop h s2 = Inr (TransactionValue (s ! 0), take (nat n) s2)"
    using n0 nl last by (simp add: l2 n_def [symmetric] slice_index_def)
  have "Suc (nat n) = length s2" using l2 assms(5) by (cases s) (auto simp: n_def)
  then have "take (Suc (nat n)) s2 = s2" "nat n < length s2" by simp_all
  then have "take (nat n) s2 @ [s2 ! nat n] = s2"
    using take_Suc_conv_app_nth [of "nat n" s2] by simp
  then have "mset s2 = mset (take (nat n) s2 @ [s2 ! nat n])" by simp
  then have "mset s2 = add_mset (s ! 0) (mset (take (nat n) s2))"
    by (simp add: last)
  moreover have "heap_ok key (take (nat n) s2)"
    using hf n0 l2 nl unfolding heap_ok_def heap_from_def at_def by auto
  ultimately show ?thesis
    using swap down pop ms1 ms2 by (simp add: heap_Pop_def len Let_def)
qed

section \<open>Heap order under a comparison that can panic\<close>

text \<open>
  Both \<open>Less\<close> methods read through the pointers they compare, so on some pairs of
  elements they panic. What \<open>container/heap\<close> maintains on every slice its operations
  return can be said with \<open>Less\<close> alone. \<open>elem_less\<close> is \<open>Less\<close> on a pair of elements:
  the method applied to the slice of the two. An element \<open>a\<close> is not after \<open>b\<close> when
  \<open>Less\<close>, asked whether \<open>b\<close> goes before \<open>a\<close>, returns false without a panic. An
  implementation is a slice order when \<open>Len\<close> and \<open>Swap\<close> are the slice operations,
  \<open>Less\<close> depends on the two elements only, never answers true both ways, and "not
  after" is transitive. A slice is ordered when every parent is not after its children.
\<close>

definition elem_less :: "'a Interface \<Rightarrow> 'a \<Rightarrow> 'a \<Rightarrow> panic + bool" where
  "elem_less h a b = Less h [a, b] 0 1"

definition not_after :: "'a Interface \<Rightarrow> 'a \<Rightarrow> 'a \<Rightarrow> bool" where
  "not_after h a b \<longleftrightarrow> elem_less h b a = Inr False"

definition slice_order :: "'a Interface \<Rightarrow> bool" where
  "slice_order h \<longleftrightarrow>
     (\<forall>s. Len h s = int (length s)) \<and>
     (\<forall>s i j. Swap h s i j = slice_Swap s i j) \<and>
     (\<forall>s i j. 0 \<le> i \<and> i < int (length s) \<and> 0 \<le> j \<and> j < int (length s)
        \<longrightarrow> Less h s i j = elem_less h (at s i) (at s j)) \<and>
     (\<forall>a b. elem_less h a b = Inr True \<longrightarrow> elem_less h b a = Inr False) \<and>
     (\<forall>a b c. not_after h a b \<and> not_after h b c \<longrightarrow> not_after h a c)"

definition ordered_from :: "'a Interface \<Rightarrow> 'a list \<Rightarrow> int \<Rightarrow> int \<Rightarrow> bool" where
  "ordered_from h s k n \<longleftrightarrow>
     (\<forall>c. 0 < c \<and> c < n \<and> k \<le> (c - 1) div 2
        \<longrightarrow> not_after h (at s ((c - 1) div 2)) (at s c))"

definition ordered :: "'a Interface \<Rightarrow> 'a list \<Rightarrow> bool" where
  "ordered h s = ordered_from h s 0 (int (length s))"

lemma slice_order_True:
  assumes "slice_order h" "0 \<le> i" "i < int (length s)" "0 \<le> j" "j < int (length s)"
    "Less h s i j = Inr True"
  shows "not_after h (at s i) (at s j)"
  using assms unfolding slice_order_def not_after_def by metis

lemma slice_order_False:
  assumes "slice_order h" "0 \<le> i" "i < int (length s)" "0 \<le> j" "j < int (length s)"
    "Less h s i j = Inr False"
  shows "not_after h (at s j) (at s i)"
  using assms unfolding slice_order_def not_after_def by metis

lemma slice_order_refuses:
  assumes "slice_order h" "0 \<le> i" "i < int (length s)" "0 \<le> j" "j < int (length s)"
    "not_after h (at s j) (at s i)"
  shows "Less h s i j = Inr False"
  using assms unfolding slice_order_def not_after_def by metis

lemma slice_order_trans:
  assumes "slice_order h" "not_after h a b" "not_after h b c"
  shows "not_after h a c"
  using assms unfolding slice_order_def by blast

lemma slice_order_Swap:
  assumes "slice_order h" "0 \<le> i" "i < int (length s)" "0 \<le> j" "j < int (length s)"
  shows "Swap h s i j = Inr (s[nat i := at s j, nat j := at s i])"
  using assms unfolding slice_order_def by (simp add: slice_Swap_def slice_index_def at_def)

lemma heap_down_ordered:
  "slice_order h \<Longrightarrow> heap_down h s i n = Inr s' \<Longrightarrow> 0 \<le> k \<Longrightarrow> k \<le> i \<Longrightarrow>
     n \<le> int (length s) \<Longrightarrow>
     (\<forall>c. 0 < c \<and> c < n \<and> k \<le> (c - 1) div 2 \<and> (c - 1) div 2 \<noteq> i
          \<longrightarrow> not_after h (at s ((c - 1) div 2)) (at s c)) \<Longrightarrow>
     (0 < i \<and> k \<le> (i - 1) div 2 \<longrightarrow>
        (\<forall>c. 0 < c \<and> c < n \<and> (c - 1) div 2 = i
           \<longrightarrow> not_after h (at s ((i - 1) div 2)) (at s c))) \<Longrightarrow>
     mset s' = mset s
       \<and> (\<forall>m. 0 \<le> m \<and> (m < i \<or> n \<le> m) \<longrightarrow> at s' m = at s m)
       \<and> ordered_from h s' k n"
proof (induction h s i n rule: heap_down.induct)
  case (1 h s i n)
  note so = "1.prems"(1) and run = "1.prems"(2) and k0 = "1.prems"(3) and ki = "1.prems"(4)
    and nl = "1.prems"(5) and others = "1.prems"(6) and grand = "1.prems"(7)
  let ?j1 = "2 * i + 1"
  let ?first = "if ?j1 + 1 < n then Less h s (?j1 + 1) ?j1 else Inr False"
  have i0: "0 \<le> i" using k0 ki by simp
  show ?case
  proof (cases "n \<le> ?j1 \<or> ?j1 < 0")
    case True
    with run have eq: "s' = s"
      by (subst (asm) heap_down.simps) (simp add: Let_def)
    have "ordered_from h s k n"
      unfolding ordered_from_def
    proof (intro allI impI)
      fix c assume c: "0 < c \<and> c < n \<and> k \<le> (c - 1) div 2"
      have "(c - 1) div 2 \<noteq> i" using c True i0 by auto
      with c others show "not_after h (at s ((c - 1) div 2)) (at s c)" by blast
    qed
    with eq show ?thesis by simp
  next
    case False
    then have j1n: "?j1 < n" and j10: "0 \<le> ?j1" by auto
    from run have unf: "(case ?first of
           Inl e \<Rightarrow> Inl e
         | Inr r \<Rightarrow>
             (let j = (if r then ?j1 + 1 else ?j1) in
              case Less h s j i of
                Inl e \<Rightarrow> Inl e
              | Inr lt \<Rightarrow>
                  if \<not> lt then Inr s
                  else (case Swap h s i j of
                          Inl e \<Rightarrow> Inl e
                        | Inr s' \<Rightarrow> heap_down h s' j n))) = Inr s'"
      by (subst (asm) heap_down.simps) (simp only: Let_def False if_False)
    then obtain r where r: "?first = Inr r"
      by (cases ?first) (simp_all only: sum.case sum.distinct)
    define j where "j = (if r then ?j1 + 1 else ?j1)"
    from unf have unf2: "(case Less h s j i of
                Inl e \<Rightarrow> Inl e
              | Inr lt \<Rightarrow>
                  if \<not> lt then Inr s
                  else (case Swap h s i j of
                          Inl e \<Rightarrow> Inl e
                        | Inr s' \<Rightarrow> heap_down h s' j n)) = Inr s'"
      by (simp only: r sum.case Let_def j_def)
    then obtain lt where lt: "Less h s j i = Inr lt"
      by (cases "Less h s j i") (simp_all only: sum.case sum.distinct)
    have rn: "?j1 + 1 < n" if r using r that by (auto split: if_splits)
    have jn: "j < n" and ij: "i < j" and pj: "(j - 1) div 2 = i" and j0: "0 < j"
      using j1n i0 rn by (auto simp: j_def)
    have child: "not_after h (at s j) (at s c)"
      if "0 < c" "c < n" "(c - 1) div 2 = i" "c \<noteq> j" for c
    proof -
      have cc: "c = ?j1 \<or> c = ?j1 + 1" using that by auto
      show ?thesis
      proof (cases r)
        case True
        then have "Less h s (?j1 + 1) ?j1 = Inr True" using r rn by simp
        then have "not_after h (at s (?j1 + 1)) (at s ?j1)"
          using slice_order_True [OF so, of "?j1 + 1" s ?j1] rn [OF True] j10 nl by simp
        with True cc that show ?thesis by (auto simp: j_def)
      next
        case False
        with cc that have c: "c = ?j1 + 1" by (auto simp: j_def)
        with that have "Less h s (?j1 + 1) ?j1 = Inr False" using r False by simp
        then have "not_after h (at s ?j1) (at s (?j1 + 1))"
          using slice_order_False [OF so, of "?j1 + 1" s ?j1] that c j10 nl by simp
        with False c show ?thesis by (simp add: j_def)
      qed
    qed
    show ?thesis
    proof (cases lt)
      case False
      with unf2 lt have eq: "s' = s" by simp
      have edge: "not_after h (at s i) (at s j)"
        using slice_order_False [OF so, of j s i] lt False jn ij i0 nl by simp
      have "ordered_from h s k n"
        unfolding ordered_from_def
      proof (intro allI impI)
        fix c assume c: "0 < c \<and> c < n \<and> k \<le> (c - 1) div 2"
        show "not_after h (at s ((c - 1) div 2)) (at s c)"
        proof (cases "(c - 1) div 2 = i")
          case True
          show ?thesis
          proof (cases "c = j")
            case True
            with edge pj show ?thesis by simp
          next
            case False
            with child [of c] c True have "not_after h (at s j) (at s c)" by simp
            with edge True show ?thesis using slice_order_trans [OF so] by blast
          qed
        next
          case False
          with c others show ?thesis by blast
        qed
      qed
      with eq show ?thesis by simp
    next
      case True
      have up: "not_after h (at s j) (at s i)"
        using slice_order_True [OF so, of j s i] lt True jn ij i0 nl by simp
      define s1 where "s1 = s[nat i := at s j, nat j := at s i]"
      have swap: "Swap h s i j = Inr s1"
        using slice_order_Swap [OF so, of i s j] i0 ij jn nl by (simp add: s1_def)
      from unf2 lt True swap have rec: "heap_down h s1 j n = Inr s'" by simp
      have at': "at s1 m = (if m = j then at s i else if m = i then at s j else at s m)"
        if "0 \<le> m" for m
        unfolding s1_def using at_swap [of i s j m] that i0 ij jn nl by simp
      have ms: "mset s1 = mset s"
        unfolding s1_def using mset_swap_at [of i s j] i0 ij jn nl by simp
      have len': "n \<le> int (length s1)" using nl by (simp add: s1_def)
      have others': "\<forall>c. 0 < c \<and> c < n \<and> k \<le> (c - 1) div 2 \<and> (c - 1) div 2 \<noteq> j
          \<longrightarrow> not_after h (at s1 ((c - 1) div 2)) (at s1 c)"
      proof (intro allI impI)
        fix c assume c: "0 < c \<and> c < n \<and> k \<le> (c - 1) div 2 \<and> (c - 1) div 2 \<noteq> j"
        let ?p = "(c - 1) div 2"
        have p0: "0 \<le> ?p" using c by simp
        show "not_after h (at s1 ?p) (at s1 c)"
        proof (cases "?p = i")
          case True
          have p': "at s1 ?p = at s j" using at' [OF p0] True ij by simp
          show ?thesis
          proof (cases "c = j")
            case True
            then have "at s1 c = at s i" using at' [of c] c by simp
            with p' up show ?thesis by simp
          next
            case False
            have "c \<noteq> i" using True c by auto
            then have "at s1 c = at s c" using at' [of c] c False by simp
            with p' child [of c] c True False show ?thesis by simp
          qed
        next
          case False
          have p': "at s1 ?p = at s ?p" using at' [OF p0] False c by simp
          show ?thesis
          proof (cases "c = i")
            case True
            then have "0 < i \<and> k \<le> (i - 1) div 2" using c by simp
            with grand pj jn j0 have "not_after h (at s ((i - 1) div 2)) (at s j)" by blast
            moreover have "at s1 c = at s j" using at' [of c] True ij i0 by simp
            ultimately show ?thesis using True p' by simp
          next
            case ci: False
            have "c \<noteq> j" using False pj by auto
            then have "at s1 c = at s c" using at' [of c] c ci by simp
            moreover have "not_after h (at s ?p) (at s c)" using c others False by blast
            ultimately show ?thesis using p' by simp
          qed
        qed
      qed
      have grand': "0 < j \<and> k \<le> (j - 1) div 2 \<longrightarrow>
          (\<forall>c. 0 < c \<and> c < n \<and> (c - 1) div 2 = j
             \<longrightarrow> not_after h (at s1 ((j - 1) div 2)) (at s1 c))"
      proof (intro allI impI)
        fix c assume "0 < j \<and> k \<le> (j - 1) div 2" and c: "0 < c \<and> c < n \<and> (c - 1) div 2 = j"
        have "c \<noteq> j" "c \<noteq> i" using c ij by auto
        then have "at s1 c = at s c" using at' [of c] c by simp
        moreover have "at s1 ((j - 1) div 2) = at s j" using at' [of i] pj i0 ij by simp
        moreover have "not_after h (at s j) (at s c)"
          using others c ij ki by auto
        ultimately show "not_after h (at s1 ((j - 1) div 2)) (at s1 c)" by simp
      qed
      have kj: "k \<le> j" using ki ij by simp
      from "1.IH" [OF refl False r j_def lt _ swap so rec k0 kj len' others' grand'] True
      have ms': "mset s' = mset s1"
        and frame: "\<forall>m. 0 \<le> m \<and> (m < j \<or> n \<le> m) \<longrightarrow> at s' m = at s1 m"
        and hf: "ordered_from h s' k n"
        by auto
      have "at s' m = at s m" if "0 \<le> m \<and> (m < i \<or> n \<le> m)" for m
        using frame at' [of m] that ij jn by auto
      with ms ms' hf show ?thesis by simp
    qed
  qed
qed


lemma heap_up_ordered:
  "slice_order h \<Longrightarrow> heap_up h s j = Inr s' \<Longrightarrow> 0 \<le> j \<Longrightarrow> j < int (length s) \<Longrightarrow>
     (\<forall>c. 0 < c \<and> c < int (length s) \<and> c \<noteq> j
          \<longrightarrow> not_after h (at s ((c - 1) div 2)) (at s c)) \<Longrightarrow>
     (0 < j \<longrightarrow> (\<forall>c. 0 < c \<and> c < int (length s) \<and> (c - 1) div 2 = j
          \<longrightarrow> not_after h (at s ((j - 1) div 2)) (at s c))) \<Longrightarrow>
     mset s' = mset s \<and> ordered_from h s' 0 (int (length s'))"
proof (induction h s j rule: heap_up.induct)
  case (1 h s j)
  note so = "1.prems"(1) and run = "1.prems"(2) and j0 = "1.prems"(3) and jn = "1.prems"(4)
    and others = "1.prems"(5) and grand = "1.prems"(6)
  define i where "i = quo (j - 1) 2"
  show ?case
  proof (cases "i = j")
    case True
    with run have eq: "s' = s"
      by (subst (asm) heap_up.simps) (simp add: i_def Let_def)
    have "j = 0"
    proof (rule ccontr)
      assume "j \<noteq> 0"
      then have "0 < j" using j0 by simp
      then have "i < j" using quo_parent [of j] by (simp add: i_def)
      with True show False by simp
    qed
    then have "ordered_from h s 0 (int (length s))"
      using others by (auto simp: ordered_from_def)
    with eq show ?thesis by simp
  next
    case False
    have jpos: "0 < j"
    proof (rule ccontr)
      assume "\<not> 0 < j"
      then have "j = 0" using j0 by simp
      then show False using False quo_nonpos(1) by (simp add: i_def)
    qed
    have i_eq: "i = (j - 1) div 2" using quo_parent [OF jpos] by (simp add: i_def)
    have i0: "0 \<le> i" and ij: "i < j" using jpos by (auto simp: i_eq)
    from run False have unf: "(case Less h s j i of
           Inl e \<Rightarrow> Inl e
         | Inr lt \<Rightarrow>
             if \<not> lt then Inr s
             else (case Swap h s i j of Inl e \<Rightarrow> Inl e | Inr s' \<Rightarrow> heap_up h s' i)) = Inr s'"
      by (subst (asm) heap_up.simps) (simp add: i_def [symmetric] Let_def)
    then obtain lt where lt: "Less h s j i = Inr lt"
      by (cases "Less h s j i") (simp_all only: sum.case sum.distinct)
    show ?thesis
    proof (cases lt)
      case False
      with unf lt have eq: "s' = s" by simp
      have edge: "not_after h (at s i) (at s j)"
        using slice_order_False [OF so, of j s i] lt False jn ij i0 j0 by simp
      have "ordered_from h s 0 (int (length s))"
        unfolding ordered_from_def
      proof (intro allI impI)
        fix c assume c: "0 < c \<and> c < int (length s) \<and> 0 \<le> (c - 1) div 2"
        show "not_after h (at s ((c - 1) div 2)) (at s c)"
          using c others edge i_eq by (cases "c = j") auto
      qed
      with eq show ?thesis by simp
    next
      case True
      have up: "not_after h (at s j) (at s i)"
        using slice_order_True [OF so, of j s i] lt True jn ij i0 j0 by simp
      define s1 where "s1 = s[nat i := at s j, nat j := at s i]"
      have swap: "Swap h s i j = Inr s1"
        using slice_order_Swap [OF so, of i s j] i0 ij jn by (simp add: s1_def)
      from unf lt True swap have rec: "heap_up h s1 i = Inr s'" by simp
      have at': "at s1 m = (if m = j then at s i else if m = i then at s j else at s m)"
        if "0 \<le> m" for m
        unfolding s1_def using at_swap [of i s j m] that i0 ij jn by simp
      have ms: "mset s1 = mset s"
        unfolding s1_def using mset_swap_at [of i s j] i0 ij jn by simp
      have len': "length s1 = length s" by (simp add: s1_def)
      have edge_i: "not_after h (at s ((i - 1) div 2)) (at s i)" if "0 < i"
        using others that ij jn by auto
      have below_i: "not_after h (at s i) (at s c)"
        if "0 < c" "c < int (length s)" "(c - 1) div 2 = i" "c \<noteq> j" for c
        using others that by auto
      have others': "\<forall>c. 0 < c \<and> c < int (length s1) \<and> c \<noteq> i
          \<longrightarrow> not_after h (at s1 ((c - 1) div 2)) (at s1 c)"
      proof (intro allI impI)
        fix c assume c: "0 < c \<and> c < int (length s1) \<and> c \<noteq> i"
        let ?p = "(c - 1) div 2"
        have p0: "0 \<le> ?p" and pc: "?p < c" using c by auto
        show "not_after h (at s1 ?p) (at s1 c)"
        proof (cases "c = j")
          case True
          then show ?thesis
            using at' [of j] at' [of i] i0 ij i_eq up by simp
        next
          case False
          then have c': "at s1 c = at s c" using at' [of c] c by simp
          have ok: "not_after h (at s ?p) (at s c)" using others c False len' by simp
          show ?thesis
          proof (cases "?p = i")
            case True
            have "at s1 ?p = at s j" using at' [of i] i0 ij True by simp
            moreover have "not_after h (at s j) (at s c)"
              using slice_order_trans [OF so up] ok True by simp
            ultimately show ?thesis using c' by simp
          next
            case pi: False
            show ?thesis
            proof (cases "?p = j")
              case True
              then have "not_after h (at s i) (at s c)"
                using grand jpos c len' i_eq by auto
              then show ?thesis using at' [of j] True c' jpos by simp
            next
              case False
              then show ?thesis using at' [OF p0] pi c' ok by simp
            qed
          qed
        qed
      qed
      have grand': "0 < i \<longrightarrow> (\<forall>c. 0 < c \<and> c < int (length s1) \<and> (c - 1) div 2 = i
          \<longrightarrow> not_after h (at s1 ((i - 1) div 2)) (at s1 c))"
      proof (intro allI impI)
        fix c assume ipos: "0 < i" and c: "0 < c \<and> c < int (length s1) \<and> (c - 1) div 2 = i"
        have g: "at s1 ((i - 1) div 2) = at s ((i - 1) div 2)"
          using at' [of "(i - 1) div 2"] ipos ij by auto
        show "not_after h (at s1 ((i - 1) div 2)) (at s1 c)"
        proof (cases "c = j")
          case True
          then show ?thesis using g at' [of j] jpos edge_i [OF ipos] by simp
        next
          case False
          have "c \<noteq> i" using c by auto
          then have "at s1 c = at s c" using at' [of c] c False by simp
          moreover have "not_after h (at s i) (at s c)"
            using below_i [of c] c False len' by simp
          ultimately show ?thesis
            using g slice_order_trans [OF so edge_i [OF ipos]] by simp
        qed
      qed
      have jn': "i < int (length s1)" using ij jn len' by simp
      from "1.IH" [OF i_def False lt _ swap so rec i0 jn' others' grand'] True
      have "mset s' = mset s1" "ordered_from h s' 0 (int (length s'))"
        by auto
      with ms show ?thesis by simp
    qed
  qed
qed

lemma ordered_Push:
  assumes "slice_order h" "tx_ops h" "ordered h s"
    "heap_Push h s (TransactionValue a) = Inr s'"
  shows "mset s' = add_mset a (mset s) \<and> ordered h s'"
proof -
  let ?s = "s @ [a]" and ?j = "int (length s)"
  have push: "Push h s (TransactionValue a) = ?s" using assms(2) by (simp add: tx_ops_def)
  have len: "Len h ?s - 1 = ?j" using assms(2) by (simp add: tx_ops_def)
  from assms(4) have run: "heap_up h ?s ?j = Inr s'"
    by (simp add: heap_Push_def push len Let_def)
  have others: "\<forall>c. 0 < c \<and> c < int (length ?s) \<and> c \<noteq> ?j
      \<longrightarrow> not_after h (at ?s ((c - 1) div 2)) (at ?s c)"
  proof (intro allI impI)
    fix c assume c: "0 < c \<and> c < int (length ?s) \<and> c \<noteq> ?j"
    then have "c < ?j" by simp
    then have "at ?s c = at s c" "at ?s ((c - 1) div 2) = at s ((c - 1) div 2)"
      using c by (auto intro!: at_append)
    moreover have "not_after h (at s ((c - 1) div 2)) (at s c)"
      using assms(3) c \<open>c < ?j\<close> by (auto simp: ordered_def ordered_from_def)
    ultimately show "not_after h (at ?s ((c - 1) div 2)) (at ?s c)" by simp
  qed
  have grand: "0 < ?j \<longrightarrow> (\<forall>c. 0 < c \<and> c < int (length ?s) \<and> (c - 1) div 2 = ?j
      \<longrightarrow> not_after h (at ?s ((?j - 1) div 2)) (at ?s c))"
    by auto
  have "mset s' = mset ?s \<and> ordered_from h s' 0 (int (length s'))"
    by (rule heap_up_ordered [OF assms(1) run _ _ others grand]) simp_all
  then show ?thesis by (simp add: ordered_def)
qed

lemma ordered_Push_other:
  assumes "slice_order h" "tx_ops h" "ordered h s"
  shows "heap_Push h s OtherValue = Inr s"
proof -
  let ?j = "int (length s) - 1"
  have push: "Push h s OtherValue = s" and len: "Len h s = int (length s)"
    using assms(2) by (simp_all add: tx_ops_def)
  have "heap_up h s ?j = Inr s"
  proof (cases "length s \<le> 1")
    case True
    then have "?j = 0 \<or> ?j = - 1" by (cases s) auto
    then show ?thesis
      by (subst heap_up.simps) (auto simp: quo_def Let_def)
  next
    case False
    then have j: "0 < ?j" by simp
    have "0 < ?j \<and> ?j < int (length s) \<and> 0 \<le> (?j - 1) div 2 \<longrightarrow>
        not_after h (at s ((?j - 1) div 2)) (at s ?j)"
      using assms(3) unfolding ordered_def ordered_from_def by blast
    then have "not_after h (at s ((?j - 1) div 2)) (at s ?j)"
      using j by simp
    then have "Less h s ?j ((?j - 1) div 2) = Inr False"
      by (intro slice_order_refuses [OF assms(1)]) (use j in auto)
    then show ?thesis
      using j quo_parent [OF j]
      by (subst heap_up.simps) (simp add: Let_def)
  qed
  then show ?thesis by (simp add: heap_Push_def push len Let_def)
qed

lemma ordered_Pop:
  assumes "slice_order h" "tx_ops h" "ordered h s" "s \<noteq> []" "heap_Pop h s = Inr (x, s')"
  shows "x = TransactionValue (s ! 0) \<and> mset s = add_mset (s ! 0) (mset s') \<and> ordered h s'"
proof -
  define n where "n = int (length s) - 1"
  have n0: "0 \<le> n" and nl: "n < int (length s)" using assms(4) by (auto simp: n_def)
  have len: "Len h s - 1 = n" using assms(2) by (simp add: tx_ops_def n_def)
  define s1 where "s1 = s[nat 0 := at s n, nat n := at s 0]"
  have l0: "(0::int) < int (length s)" using assms(4) by simp
  have swap: "Swap h s 0 n = Inr s1"
    unfolding s1_def by (rule slice_order_Swap [OF assms(1) order_refl l0 n0 nl])
  from assms(5) swap obtain s2 where down: "heap_down h s1 0 n = Inr s2"
    and pop: "Pop h s2 = Inr (x, s')"
    by (auto simp: heap_Pop_def len Let_def and_then_def split: sum.splits)
  have at1: "at s1 m = (if m = n then at s 0 else if m = 0 then at s n else at s m)"
    if "0 \<le> m" for m
    unfolding s1_def by (rule at_swap [OF order_refl l0 n0 nl that])
  have ms1: "mset s1 = mset s"
    unfolding s1_def by (rule mset_swap_at [OF order_refl l0 n0 nl])
  have l1: "length s1 = length s" by (simp add: s1_def)
  have others: "\<forall>c. 0 < c \<and> c < n \<and> 0 \<le> (c - 1) div 2 \<and> (c - 1) div 2 \<noteq> 0
      \<longrightarrow> not_after h (at s1 ((c - 1) div 2)) (at s1 c)"
  proof (intro allI impI)
    fix c assume c: "0 < c \<and> c < n \<and> 0 \<le> (c - 1) div 2 \<and> (c - 1) div 2 \<noteq> 0"
    then have "at s1 c = at s c" "at s1 ((c - 1) div 2) = at s ((c - 1) div 2)"
      using at1 [of c] at1 [of "(c - 1) div 2"] by auto
    moreover have "not_after h (at s ((c - 1) div 2)) (at s c)"
      using assms(3) c nl by (auto simp: ordered_def ordered_from_def)
    ultimately show "not_after h (at s1 ((c - 1) div 2)) (at s1 c)" by simp
  qed
  have "mset s2 = mset s1
          \<and> (\<forall>m. 0 \<le> m \<and> (m < 0 \<or> n \<le> m) \<longrightarrow> at s2 m = at s1 m)
          \<and> ordered_from h s2 0 n"
    by (rule heap_down_ordered [OF assms(1) down order_refl order_refl _ others])
      (use nl l1 in auto)
  then have ms2: "mset s2 = mset s1"
    and frame: "at s2 n = at s1 n" and hf: "ordered_from h s2 0 n"
    using n0 by auto
  have l2: "length s2 = length s" using ms2 l1 by (metis size_mset)
  have last: "s2 ! nat n = s ! 0" using frame at1 [of n] n0 by (simp add: at_def)
  have "Pop h s2 = and_then (slice_index s2 (int (length s2) - 1)) (\<lambda>x.
          Inr (TransactionValue x, take (nat (int (length s2) - 1)) s2))"
    using assms(2) by (simp add: tx_ops_def)
  then have "Pop h s2 = Inr (TransactionValue (s ! 0), take (nat n) s2)"
    using n0 nl last by (simp add: l2 n_def [symmetric] slice_index_def)
  with pop have x: "x = TransactionValue (s ! 0)" and s': "s' = take (nat n) s2" by simp_all
  have "Suc (nat n) = length s2" using l2 assms(4) by (cases s) (auto simp: n_def)
  then have "take (Suc (nat n)) s2 = s2" "nat n < length s2" by simp_all
  then have "take (nat n) s2 @ [s2 ! nat n] = s2"
    using take_Suc_conv_app_nth [of "nat n" s2] by simp
  then have "mset s2 = mset (take (nat n) s2 @ [s2 ! nat n])" by simp
  then have "mset s2 = add_mset (s ! 0) (mset (take (nat n) s2))"
    by (simp add: last)
  moreover have "ordered h (take (nat n) s2)"
    using hf n0 l2 nl unfolding ordered_def ordered_from_def at_def by auto
  ultimately show ?thesis
    using x s' ms1 ms2 by simp
qed

lemma ordered_from_nonpos: "k \<le> 0 \<Longrightarrow> ordered_from h s k n = ordered_from h s 0 n"
  unfolding ordered_from_def by (intro iff_allI) auto

lemma Init_loop_ordered:
  "slice_order h \<Longrightarrow> Init_loop h s i n = Inr s' \<Longrightarrow> n \<le> int (length s) \<Longrightarrow>
     ordered_from h s (i + 1) n \<Longrightarrow>
     mset s' = mset s \<and> ordered_from h s' 0 n"
proof (induction h s i n rule: Init_loop.induct)
  case (1 h s i n)
  note so = "1.prems"(1) and run = "1.prems"(2) and nl = "1.prems"(3) and hf = "1.prems"(4)
  show ?case
  proof (cases "0 \<le> i")
    case False
    with run have "s' = s" by (subst (asm) Init_loop.simps) simp
    moreover have "ordered_from h s 0 n"
      using hf ordered_from_nonpos [of "i + 1" h s n] False by simp
    ultimately show ?thesis by simp
  next
    case True
    from run True obtain s1 where d: "heap_down h s i n = Inr s1"
      and rec: "Init_loop h s1 (i - 1) n = Inr s'"
      by (subst (asm) Init_loop.simps) (auto split: sum.splits)
    have others: "\<forall>c. 0 < c \<and> c < n \<and> i \<le> (c - 1) div 2 \<and> (c - 1) div 2 \<noteq> i
          \<longrightarrow> not_after h (at s ((c - 1) div 2)) (at s c)"
      using hf by (auto simp: ordered_from_def)
    have grand: "0 < i \<and> i \<le> (i - 1) div 2 \<longrightarrow>
        (\<forall>c. 0 < c \<and> c < n \<and> (c - 1) div 2 = i
           \<longrightarrow> not_after h (at s ((i - 1) div 2)) (at s c))"
      by auto
    from heap_down_ordered [OF so d True order_refl nl others grand]
    have ms: "mset s1 = mset s" and hf': "ordered_from h s1 i n" by auto
    have nl': "n \<le> int (length s1)" using nl ms by (metis size_mset)
    from "1.IH" [OF True d so rec nl'] hf'
    have "mset s' = mset s1" "ordered_from h s' 0 n" by auto
    then show ?thesis using ms by simp
  qed
qed

lemma ordered_Init:
  assumes "slice_order h" "heap_Init h s = Inr s'"
  shows "mset s' = mset s \<and> ordered h s'"
proof -
  let ?n = "int (length s)"
  have len: "Len h s = ?n" using assms(1) by (simp add: slice_order_def)
  have q: "quo ?n 2 = ?n div 2" by (auto simp: quo_def sgn_if)
  have "ordered_from h s (quo ?n 2 - 1 + 1) ?n"
    unfolding ordered_from_def q by (intro allI impI) linarith
  moreover from assms(2) have "Init_loop h s (quo ?n 2 - 1) ?n = Inr s'"
    by (simp add: heap_Init_def len Let_def)
  ultimately have "mset s' = mset s" "ordered_from h s' 0 ?n"
    using Init_loop_ordered [OF assms(1) _ order_refl] by blast+
  moreover from this have "length s' = length s" by (metis size_mset)
  ultimately show ?thesis by (simp add: ordered_def)
qed

lemma ordered_empty: "ordered h []"
  by (auto simp: ordered_def ordered_from_def)

lemma ordered_root:
  assumes "slice_order h" "ordered h s"
  shows "0 < m \<Longrightarrow> m < length s \<Longrightarrow> not_after h (s ! 0) (s ! m)"
proof (induction m rule: less_induct)
  case (less m)
  let ?p = "(m - 1) div 2"
  have "not_after h (at s ((int m - 1) div 2)) (at s (int m))"
    using assms(2) less.prems unfolding ordered_def ordered_from_def by auto
  moreover have "nat ((int m - 1) div 2) = ?p"
    using less.prems by (simp add: nat_div_distrib nat_diff_distrib)
  ultimately have edge: "not_after h (s ! ?p) (s ! m)" by (simp add: at_def)
  show ?case
  proof (cases "?p = 0")
    case True
    with edge show ?thesis by simp
  next
    case False
    then have "0 < ?p" "?p < m" using less.prems by auto
    then have "not_after h (s ! 0) (s ! ?p)" using less by simp
    then show ?thesis using edge slice_order_trans [OF assms(1)] by blast
  qed
qed

section \<open>The two orderings\<close>

text \<open>
  For each queue, a set of records on which its \<open>Less\<close> never panics (records with
  a gas price, records with populated fee fields), and a key whose order is the order
  of \<open>Less\<close> there: nonce, then the negated gas price, for the per-account queue; the
  negated effective tip (when there is a base fee), fee cap and tip cap, then the
  nonce, for the price-ordered queue.
\<close>

definition has_gas_price :: "TxPtr \<Rightarrow> bool" where
  "has_gas_price p = (case p of None \<Rightarrow> False | Some t \<Rightarrow> GasPrice t \<noteq> None)"

definition priced :: "TxPtr \<Rightarrow> bool" where
  "priced p = (case p of None \<Rightarrow> False | Some t \<Rightarrow> fee_populated t)"

definition nonce_key :: "TxPtr \<Rightarrow> nat \<times> int" where
  "nonce_key p =
     (case p of None \<Rightarrow> (0, 0)
      | Some t \<Rightarrow> (unat (Nonce t), - (case GasPrice t of None \<Rightarrow> 0 | Some g \<Rightarrow> g)))"

definition price_key :: "int \<Rightarrow> TxPtr \<Rightarrow> int \<times> int \<times> int \<times> nat" where
  "price_key fee p =
     (case p of None \<Rightarrow> (0, 0, 0, 0)
      | Some t \<Rightarrow>
          (if fee = 0 then 0 else - spec_effectiveTip t fee,
           - spec_feeCap t, - spec_tipCap t, unat (Nonce t)))"

lemma nonce_key_less:
  assumes "GasPrice a = Some ga" "GasPrice b = Some gb"
  shows "(if Nonce a = Nonce b
          then and_then (Cmp (GasPrice a) (GasPrice b)) (\<lambda>c. Inr (c > 0))
          else Inr (Nonce a < Nonce b))
         = Inr (nonce_key (Some a) < nonce_key (Some b))"
proof (cases "Nonce a = Nonce b")
  case True
  then show ?thesis
    using assms by (simp add: Cmp_Some larger_wins_def nonce_key_def less_prod_def)
next
  case False
  then have "unat (Nonce a) \<noteq> unat (Nonce b)" by (simp add: word_unat_eq_iff)
  with False show ?thesis
    using assms by (auto simp: nonce_key_def less_prod_def word_less_nat_alt)
qed

lemma slice_heap_minNonceQueue: "slice_heap minNonceQueue nonce_key (Collect has_gas_price)"
  unfolding slice_heap_def
proof (intro conjI allI impI)
  fix s :: "TxPtr list" and i j
  show "Len minNonceQueue s = int (length s)"
    by (simp add: minNonceQueue_def minNonceQueue_Len_def)
  show "Swap minNonceQueue s i j = slice_Swap s i j"
    by (simp add: minNonceQueue_def minNonceQueue_Swap_def)
  assume a: "0 \<le> i \<and> i < int (length s) \<and> 0 \<le> j \<and> j < int (length s)
      \<and> set s \<subseteq> Collect has_gas_price"
  then have "has_gas_price (s ! nat i)" "has_gas_price (s ! nat j)"
    by (auto simp: subset_iff nat_less_iff)
  then obtain ti tj gi gj where t: "s ! nat i = Some ti" "s ! nat j = Some tj"
    "GasPrice ti = Some gi" "GasPrice tj = Some gj"
    by (auto simp: has_gas_price_def split: option.splits)
  show "Less minNonceQueue s i j = Inr (nonce_key (at s i) < nonce_key (at s j))"
    using a t(1,2) nonce_key_less [OF t(3,4)]
    by (simp add: minNonceQueue_def minNonceQueue_Less_def slice_index_def at_def)
qed

lemma price_key_less:
  assumes "fee_populated a" "fee_populated b"
  shows "and_then (cmp (Some a) (Some b) (Some fee)) (\<lambda>c.
           if c = - 1 then Inr False
           else if c = 1 then Inr True
           else Inr (Nonce a < Nonce b))
         = Inr (price_key fee (Some a) < price_key fee (Some b))"
  by (simp add: cmp_populated [OF assms] price_key_def larger_wins_def less_prod_def
      word_less_nat_alt)

lemma slice_heap_maxPriceQueue:
  "slice_heap (maxPriceQueue_heap (Some fee)) (price_key fee) (Collect priced)"
  unfolding slice_heap_def
proof (intro conjI allI impI)
  fix s :: "TxPtr list" and i j
  show "Len (maxPriceQueue_heap (Some fee)) s = int (length s)"
    by (simp add: maxPriceQueue_heap_def maxPriceQueue_Len_def)
  show "Swap (maxPriceQueue_heap (Some fee)) s i j = slice_Swap s i j"
    by (simp add: maxPriceQueue_heap_def maxPriceQueue_Swap_def)
  assume a: "0 \<le> i \<and> i < int (length s) \<and> 0 \<le> j \<and> j < int (length s)
      \<and> set s \<subseteq> Collect priced"
  then have "priced (s ! nat i)" "priced (s ! nat j)"
    by (auto simp: subset_iff nat_less_iff)
  then obtain ti tj where t: "s ! nat i = Some ti" "s ! nat j = Some tj"
    "fee_populated ti" "fee_populated tj"
    by (auto simp: priced_def split: option.splits)
  show "Less (maxPriceQueue_heap (Some fee)) s i j
          = Inr (price_key fee (at s i) < price_key fee (at s j))"
    using a t price_key_less [OF t(3,4), of fee]
    by (simp add: maxPriceQueue_heap_def maxPriceQueue_Less_def slice_index_def at_def
        cong: if_cong)
qed

text \<open>
  The two implementations as slice orders, for all records. In the per-account queue
  a record is not after another when its nonce is lower, or the nonces are equal and
  either both gas prices are set and its own is not the lower one, or both are nil.
\<close>

lemma elem_less_minNonceQueue:
  "elem_less minNonceQueue a b =
     and_then (deref a) (\<lambda>ta.
     and_then (deref b) (\<lambda>tb.
       if Nonce ta = Nonce tb
       then and_then (Cmp (GasPrice ta) (GasPrice tb)) (\<lambda>c. Inr (c > 0))
       else Inr (Nonce ta < Nonce tb)))"
  by (cases a; cases b)
    (simp_all add: elem_less_def minNonceQueue_def minNonceQueue_Less_def slice_index_def)

lemma Less_minNonceQueue:
  assumes "0 \<le> i" "i < int (length s)" "0 \<le> j" "j < int (length s)"
  shows "Less minNonceQueue s i j = elem_less minNonceQueue (at s i) (at s j)"
  unfolding elem_less_minNonceQueue using assms
  by (simp add: minNonceQueue_def minNonceQueue_Less_def slice_index_def at_def)

lemma not_after_minNonceQueue:
  "not_after minNonceQueue a b \<longleftrightarrow>
     (\<exists>ta tb. a = Some ta \<and> b = Some tb \<and>
        (Nonce ta < Nonce tb \<or>
         (Nonce ta = Nonce tb \<and>
          (case (GasPrice ta, GasPrice tb) of
             (Some ga, Some gb) \<Rightarrow> gb \<le> ga
           | (None, None) \<Rightarrow> True
           | _ \<Rightarrow> False))))"
proof (cases a)
  case None
  then show ?thesis by (cases b) (simp_all add: not_after_def elem_less_minNonceQueue)
next
  case (Some ta)
  show ?thesis
  proof (cases b)
    case None
    then show ?thesis by (simp add: not_after_def elem_less_minNonceQueue)
  next
    case (Some tb)
    show ?thesis
    proof (cases "Nonce ta = Nonce tb")
      case True
      then show ?thesis
        using \<open>a = Some ta\<close> Some
        by (cases "GasPrice ta"; cases "GasPrice tb")
          (auto simp: not_after_def elem_less_minNonceQueue Cmp_def larger_wins_def)
    next
      case False
      then show ?thesis
        using \<open>a = Some ta\<close> Some
        by (auto simp: not_after_def elem_less_minNonceQueue)
    qed
  qed
qed

lemma slice_order_minNonceQueue: "slice_order minNonceQueue"
  unfolding slice_order_def
proof (intro conjI allI impI)
  fix s :: "TxPtr list" and i j
  show "Len minNonceQueue s = int (length s)"
    by (simp add: minNonceQueue_def minNonceQueue_Len_def)
  show "Swap minNonceQueue s i j = slice_Swap s i j"
    by (simp add: minNonceQueue_def minNonceQueue_Swap_def)
  assume "0 \<le> i \<and> i < int (length s) \<and> 0 \<le> j \<and> j < int (length s)"
  then show "Less minNonceQueue s i j = elem_less minNonceQueue (at s i) (at s j)"
    using Less_minNonceQueue by blast
next
  fix a b :: TxPtr
  assume t: "elem_less minNonceQueue a b = Inr True"
  then obtain ta tb where ab: "a = Some ta" "b = Some tb"
    by (cases a; cases b) (auto simp: elem_less_minNonceQueue)
  show "elem_less minNonceQueue b a = Inr False"
  proof (cases "Nonce ta = Nonce tb")
    case True
    with t ab show ?thesis
      by (cases "GasPrice ta"; cases "GasPrice tb")
        (auto simp: elem_less_minNonceQueue Cmp_def split: if_splits)
  next
    case False
    with t ab show ?thesis by (auto simp: elem_less_minNonceQueue)
  qed
next
  fix a b c :: TxPtr
  assume "not_after minNonceQueue a b \<and> not_after minNonceQueue b c"
  then show "not_after minNonceQueue a c"
    unfolding not_after_minNonceQueue
    by (auto split: option.splits)
qed

text \<open>
  In the price-ordered queue \<open>Less\<close> returns on two records exactly when they are
  comparable: under a base fee, when both have populated fee fields; without one, when
  their fee caps are both set or both nil and, where the fee caps are equal, their tip
  caps are both set or both nil. On comparable records it is the order of \<open>price_key\<close>.
\<close>

definition fee_comparable :: "int \<Rightarrow> Transaction \<Rightarrow> Transaction \<Rightarrow> bool" where
  "fee_comparable f a b \<longleftrightarrow>
     (if f \<noteq> 0 then fee_populated a \<and> fee_populated b
      else (GetGasFeeCap a = None \<longleftrightarrow> GetGasFeeCap b = None) \<and>
           (GetGasFeeCap a = GetGasFeeCap b \<longrightarrow>
              (GetGasTipCap a = None \<longleftrightarrow> GetGasTipCap b = None)))"

lemma spec_caps_accessors:
  "spec_feeCap t = (case GetGasFeeCap t of None \<Rightarrow> 0 | Some v \<Rightarrow> v)"
  "spec_tipCap t = (case GetGasTipCap t of None \<Rightarrow> 0 | Some v \<Rightarrow> v)"
  by (simp_all add: spec_feeCap_def spec_tipCap_def GetGasFeeCap_def GetGasTipCap_def)

lemma cmp_unpopulated:
  assumes "f \<noteq> 0" "\<not> (fee_populated a \<and> fee_populated b)"
  shows "cmp (Some a) (Some b) (Some f) = Inl NilPointerDereference"
  using assms
  by (cases "GetGasTipCap a"; cases "GetGasFeeCap a"; cases "GetGasTipCap b";
      cases "GetGasFeeCap b")
    (simp_all add: cmp_def BitLen_def EffectiveGasTip_def bit_length_pos_iff
      bit_length_zero_iff fee_populated_def)

lemma cmp_zero_fee:
  "cmp (Some a) (Some b) (Some 0) =
     and_then (Cmp (GetGasFeeCap a) (GetGasFeeCap b)) (\<lambda>c.
       if c \<noteq> 0 then Inr c else Cmp (GetGasTipCap a) (GetGasTipCap b))"
  by (simp add: cmp_def BitLen_def bit_length_pos_iff)

lemma elem_less_maxPriceQueue_cmp:
  "elem_less (maxPriceQueue_heap fee) a b =
     and_then (cmp a b fee) (\<lambda>c.
       if c = - 1 then Inr False
       else if c = 1 then Inr True
       else
         and_then (deref a) (\<lambda>ta.
         and_then (deref b) (\<lambda>tb.
           Inr (Nonce ta < Nonce tb))))"
  by (simp add: elem_less_def maxPriceQueue_heap_def maxPriceQueue_Less_def slice_index_def)

lemma elem_less_maxPriceQueue:
  "elem_less (maxPriceQueue_heap (Some f)) (Some a) (Some b) =
     (if fee_comparable f a b then Inr (price_key f (Some a) < price_key f (Some b))
      else Inl NilPointerDereference)"
proof (cases "f = 0")
  case False
  show ?thesis
  proof (cases "fee_populated a \<and> fee_populated b")
    case True
    then show ?thesis
      using False price_key_less [of a b f]
      by (simp add: elem_less_maxPriceQueue_cmp fee_comparable_def cong: if_cong)
  next
    case unpop: False
    then show ?thesis
      using False cmp_unpopulated [OF False unpop]
      by (simp add: elem_less_maxPriceQueue_cmp fee_comparable_def)
  qed
next
  case True
  show ?thesis
    unfolding elem_less_maxPriceQueue_cmp True cmp_zero_fee
    by (cases "GetGasTipCap a"; cases "GetGasFeeCap a"; cases "GetGasTipCap b";
        cases "GetGasFeeCap b")
      (auto simp: Cmp_def fee_comparable_def price_key_def spec_caps_accessors
        less_prod_def word_less_nat_alt)
qed

lemma elem_less_maxPriceQueue_nil:
  "elem_less (maxPriceQueue_heap fee) None b = Inl NilPointerDereference"
  "elem_less (maxPriceQueue_heap fee) a None = Inl NilPointerDereference"
  "elem_less (maxPriceQueue_heap None) a b = Inl NilPointerDereference"
  by (cases fee; cases a; simp add: elem_less_maxPriceQueue_cmp cmp_def BitLen_def)+


lemma Less_maxPriceQueue:
  assumes "0 \<le> i" "i < int (length s)" "0 \<le> j" "j < int (length s)"
  shows "Less (maxPriceQueue_heap fee) s i j
           = elem_less (maxPriceQueue_heap fee) (at s i) (at s j)"
  unfolding elem_less_maxPriceQueue_cmp at_def using assms
  by (simp add: maxPriceQueue_heap_def maxPriceQueue_Less_def slice_index_def)

lemma elem_less_maxPriceQueue_Inr:
  assumes "elem_less (maxPriceQueue_heap fee) a b = Inr r"
  shows "\<exists>f ta tb. fee = Some f \<and> a = Some ta \<and> b = Some tb \<and> fee_comparable f ta tb
           \<and> r = (price_key f a < price_key f b)"
proof -
  from assms obtain f ta tb where "fee = Some f" "a = Some ta" "b = Some tb"
    by (cases fee; cases a; cases b) (simp_all add: elem_less_maxPriceQueue_nil)
  with assms show ?thesis
    by (auto simp: elem_less_maxPriceQueue split: if_splits)
qed

lemma fee_comparable_sym: "fee_comparable f a b \<Longrightarrow> fee_comparable f b a"
  by (auto simp: fee_comparable_def split: if_splits)

lemma fee_comparable_trans:
  assumes "fee_comparable f a b" "price_key f (Some a) \<le> price_key f (Some b)"
    and "fee_comparable f b c" "price_key f (Some b) \<le> price_key f (Some c)"
  shows "fee_comparable f a c"
proof (cases "f = 0")
  case False
  with assms show ?thesis by (simp add: fee_comparable_def)
next
  case True
  have kinds: "GetGasFeeCap a = None \<longleftrightarrow> GetGasFeeCap c = None"
    using assms(1,3) True by (simp add: fee_comparable_def)
  have tips: "GetGasTipCap a = None \<longleftrightarrow> GetGasTipCap c = None"
    if eq: "GetGasFeeCap a = GetGasFeeCap c"
  proof -
    have le: "spec_feeCap c \<le> spec_feeCap b" "spec_feeCap b \<le> spec_feeCap a"
      using assms(2,4) True by (auto simp: price_key_def less_eq_prod_def)
    have "spec_feeCap a = spec_feeCap c" using eq by (simp add: spec_caps_accessors)
    with le have "spec_feeCap b = spec_feeCap a" by simp
    moreover have "GetGasFeeCap a = None \<longleftrightarrow> GetGasFeeCap b = None"
      using assms(1) True by (simp add: fee_comparable_def)
    ultimately have "GetGasFeeCap b = GetGasFeeCap a"
      by (cases "GetGasFeeCap a"; cases "GetGasFeeCap b") (simp_all add: spec_caps_accessors)
    with assms(1,3) True eq show ?thesis by (simp add: fee_comparable_def)
  qed
  from kinds tips True show ?thesis by (simp add: fee_comparable_def)
qed

lemma not_after_maxPriceQueue:
  "not_after (maxPriceQueue_heap fee) a b \<longleftrightarrow>
     (\<exists>f ta tb. fee = Some f \<and> a = Some ta \<and> b = Some tb \<and> fee_comparable f ta tb
        \<and> price_key f a \<le> price_key f b)"
proof
  assume "not_after (maxPriceQueue_heap fee) a b"
  then have "elem_less (maxPriceQueue_heap fee) b a = Inr False" by (simp add: not_after_def)
  from elem_less_maxPriceQueue_Inr [OF this] show
    "\<exists>f ta tb. fee = Some f \<and> a = Some ta \<and> b = Some tb \<and> fee_comparable f ta tb
        \<and> price_key f a \<le> price_key f b"
    using fee_comparable_sym by (auto simp: not_less)
next
  assume "\<exists>f ta tb. fee = Some f \<and> a = Some ta \<and> b = Some tb \<and> fee_comparable f ta tb
        \<and> price_key f a \<le> price_key f b"
  then obtain f ta tb where "fee = Some f" "a = Some ta" "b = Some tb" "fee_comparable f ta tb"
    "price_key f a \<le> price_key f b" by blast
  then show "not_after (maxPriceQueue_heap fee) a b"
    using fee_comparable_sym [of f ta tb]
    by (simp add: not_after_def elem_less_maxPriceQueue not_less)
qed

lemma slice_order_maxPriceQueue: "slice_order (maxPriceQueue_heap fee)"
  unfolding slice_order_def
proof (intro conjI allI impI)
  fix s :: "TxPtr list" and i j
  show "Len (maxPriceQueue_heap fee) s = int (length s)"
    by (simp add: maxPriceQueue_heap_def maxPriceQueue_Len_def)
  show "Swap (maxPriceQueue_heap fee) s i j = slice_Swap s i j"
    by (simp add: maxPriceQueue_heap_def maxPriceQueue_Swap_def)
  assume "0 \<le> i \<and> i < int (length s) \<and> 0 \<le> j \<and> j < int (length s)"
  then show "Less (maxPriceQueue_heap fee) s i j
               = elem_less (maxPriceQueue_heap fee) (at s i) (at s j)"
    using Less_maxPriceQueue by blast
next
  fix a b :: TxPtr
  assume "elem_less (maxPriceQueue_heap fee) a b = Inr True"
  from elem_less_maxPriceQueue_Inr [OF this] obtain f ta tb
    where "fee = Some f" "a = Some ta" "b = Some tb" "fee_comparable f ta tb"
      "price_key f a < price_key f b"
    by auto
  then show "elem_less (maxPriceQueue_heap fee) b a = Inr False"
    using fee_comparable_sym [of f ta tb] by (simp add: elem_less_maxPriceQueue)
next
  fix a b c :: TxPtr
  assume "not_after (maxPriceQueue_heap fee) a b \<and> not_after (maxPriceQueue_heap fee) b c"
  then obtain f ta tb tc where t: "fee = Some f" "a = Some ta" "b = Some tb" "c = Some tc"
    and ab: "fee_comparable f ta tb" "price_key f a \<le> price_key f b"
    and bc: "fee_comparable f tb tc" "price_key f b \<le> price_key f c"
    unfolding not_after_maxPriceQueue by auto
  have "fee_comparable f ta tc"
    using fee_comparable_trans [of f ta tb tc] ab bc t by simp
  moreover have "price_key f a \<le> price_key f c" using ab(2) bc(2) by (rule order_trans)
  ultimately show "not_after (maxPriceQueue_heap fee) a c"
    unfolding not_after_maxPriceQueue using t by simp
qed

section \<open>The per-account queue\<close>

text \<open>A caller's use of a per-account queue: any sequence of its mutating methods.\<close>

datatype queue_op = OpPush TxPtr | OpPop | OpPrune "64 word" | OpClear

fun accountQueue_run :: "queue_op list \<Rightarrow> accountQueue \<Rightarrow> panic + accountQueue" where
  "accountQueue_run [] q = Inr q"
| "accountQueue_run (OpPush tx # ops) q =
     and_then (accountQueue_push q tx) (accountQueue_run ops)"
| "accountQueue_run (OpPop # ops) q =
     and_then (accountQueue_pop q) (\<lambda>(tx, q'). accountQueue_run ops q')"
| "accountQueue_run (OpPrune nonce # ops) q =
     and_then (accountQueue_prune q nonce) (\<lambda>(pruned, q'). accountQueue_run ops q')"
| "accountQueue_run (OpClear # ops) q =
     (case accountQueue_clear q of (removed, q') \<Rightarrow> accountQueue_run ops q')"

fun pushes_gas_price :: "queue_op \<Rightarrow> bool" where
  "pushes_gas_price (OpPush tx) = has_gas_price tx"
| "pushes_gas_price _ = True"

definition nonce_below :: "64 word \<Rightarrow> TxPtr \<Rightarrow> bool" where
  "nonce_below n p = (case p of None \<Rightarrow> False | Some t \<Rightarrow> Nonce t < n)"

definition nonce_order :: "Transaction \<Rightarrow> Transaction \<Rightarrow> bool" where
  "nonce_order a b \<longleftrightarrow>
     Nonce a < Nonce b \<or>
     (Nonce a = Nonce b \<and>
      (case (GasPrice a, GasPrice b) of (Some ga, Some gb) \<Rightarrow> gb \<le> ga | _ \<Rightarrow> False))"

definition account_inv :: "accountQueue \<Rightarrow> bool" where
  "account_inv q \<longleftrightarrow> heap_ok nonce_key (queue q) \<and> set (queue q) \<subseteq> Collect has_gas_price"

lemma nonce_key_le:
  assumes "has_gas_price (Some a)" "has_gas_price (Some b)"
  shows "nonce_key (Some a) \<le> nonce_key (Some b) \<longleftrightarrow> nonce_order a b"
proof -
  from assms obtain ga gb where "GasPrice a = Some ga" "GasPrice b = Some gb"
    by (auto simp: has_gas_price_def)
  then show ?thesis
    by (auto simp: nonce_key_def nonce_order_def less_eq_prod_def word_less_nat_alt
        word_unat_eq_iff)
qed

lemma heap_Init_empty: "heap_Init h [] = Inr []" if "Len h [] = 0"
  using that by (simp add: heap_Init_def quo_def Init_loop.simps)

lemma newAccountQueue_eq:
  "newAccountQueue = Inr \<lparr>mutex = \<lparr>writer = False, readers = 0\<rparr>, wLock = 0, queue = []\<rparr>"
  by (simp add: newAccountQueue_def heap_Init_empty minNonceQueue_def minNonceQueue_Len_def)

lemma accountQueue_push_correct:
  assumes "account_inv q" "has_gas_price tx"
  shows "\<exists>s. accountQueue_push q tx = Inr (q\<lparr>queue := s\<rparr>)
           \<and> mset s = add_mset tx (mset (queue q)) \<and> account_inv (q\<lparr>queue := s\<rparr>)"
proof -
  from heap_Push_correct [OF slice_heap_minNonceQueue tx_ops_minNonceQueue, of "queue q" tx]
    assms
  obtain s where s: "heap_Push minNonceQueue (queue q) (TransactionValue tx) = Inr s"
    "mset s = add_mset tx (mset (queue q))" "heap_ok nonce_key s"
    by (auto simp: account_inv_def)
  then have "set s = insert tx (set (queue q))" by (metis set_mset_mset set_mset_add_mset_insert)
  with s assms show ?thesis
    by (intro exI [of _ s]) (auto simp: accountQueue_push_def account_inv_def)
qed

lemma accountQueue_peek_eq:
  "accountQueue_peek q = (if queue q = [] then None else queue q ! 0)"
  by (simp add: accountQueue_peek_def accountQueue_length_def minNonceQueue_def
      minNonceQueue_Len_def minNonceQueue_Peek_def)

lemma accountQueue_pop_empty: "queue q = [] \<Longrightarrow> accountQueue_pop q = Inr (None, q)"
  by (simp add: accountQueue_pop_def accountQueue_length_def minNonceQueue_def
      minNonceQueue_Len_def)

lemma accountQueue_pop_correct:
  assumes "account_inv q" "queue q \<noteq> []"
  shows "\<exists>s. accountQueue_pop q = Inr (queue q ! 0, q\<lparr>queue := s\<rparr>)
           \<and> mset (queue q) = add_mset (queue q ! 0) (mset s) \<and> account_inv (q\<lparr>queue := s\<rparr>)"
proof -
  from heap_Pop_correct [OF slice_heap_minNonceQueue tx_ops_minNonceQueue, of "queue q"] assms
  obtain s where s: "heap_Pop minNonceQueue (queue q) = Inr (TransactionValue (queue q ! 0), s)"
    "mset (queue q) = add_mset (queue q ! 0) (mset s)" "heap_ok nonce_key s"
    by (auto simp: account_inv_def)
  then have "set s \<subseteq> set (queue q)" by (metis set_mset_mset set_mset_add_mset_insert subset_insertI)
  with s assms show ?thesis
    by (intro exI [of _ s])
      (auto simp: accountQueue_pop_def account_inv_def accountQueue_length_def
        minNonceQueue_def minNonceQueue_Len_def)
qed

lemma accountQueue_pop_inv:
  assumes "account_inv q"
  shows "\<exists>tx q'. accountQueue_pop q = Inr (tx, q') \<and> account_inv q'"
proof (cases "queue q = []")
  case True
  then show ?thesis using assms accountQueue_pop_empty by blast
next
  case False
  then show ?thesis using accountQueue_pop_correct [OF assms] by blast
qed


lemma nonce_order_Nonce: "nonce_order a b \<Longrightarrow> Nonce a \<le> Nonce b"
  by (auto simp: nonce_order_def)

lemma account_inv_min:
  assumes "account_inv q" "queue q \<noteq> []"
  shows "\<exists>x. queue q ! 0 = Some x \<and> (\<forall>p \<in> set (queue q). nonce_key (Some x) \<le> nonce_key p)
           \<and> (\<forall>y. Some y \<in> set (queue q) \<longrightarrow> nonce_order x y)"
proof -
  have mem: "queue q ! 0 \<in> set (queue q)" using assms(2) by simp
  then have "has_gas_price (queue q ! 0)" using assms(1) unfolding account_inv_def by blast
  then obtain x where x: "queue q ! 0 = Some x"
    by (auto simp: has_gas_price_def split: option.splits)
  have le: "nonce_key (Some x) \<le> nonce_key p" if "p \<in> set (queue q)" for p
    using heap_ok_min [of nonce_key "queue q" p] assms that x by (simp add: account_inv_def)
  have "nonce_order x y" if "Some y \<in> set (queue q)" for y
  proof -
    have "has_gas_price (Some x)" "has_gas_price (Some y)"
      using assms mem that x by (auto simp: account_inv_def)
    then show ?thesis using nonce_key_le le [OF that] by simp
  qed
  with x le show ?thesis by blast
qed

lemma prune_loop_correct:
  "account_inv q \<Longrightarrow>
     \<exists>pr q'. accountQueue_prune_loop q n acc = Inr (acc @ pr, q') \<and> account_inv q'
       \<and> mutex q' = mutex q \<and> wLock q' = wLock q
       \<and> mset (queue q) = mset pr + mset (queue q')
       \<and> (\<forall>p \<in> set pr. nonce_below n p) \<and> (\<forall>p \<in> set (queue q'). \<not> nonce_below n p)
       \<and> sorted (map nonce_key pr)"
proof (induction q n acc rule: accountQueue_prune_loop.induct)
  case (1 q n acc)
  note inv = "1.prems"
  show ?case
  proof (cases "queue q = []")
    case True
    then have "accountQueue_prune_loop q n acc = Inr (acc, q)"
      by (subst accountQueue_prune_loop.simps) (simp add: accountQueue_peek_eq)
    with True inv show ?thesis by (intro exI [of _ "[]"] exI [of _ q]) simp
  next
    case False
    from account_inv_min [OF inv False] obtain x where x: "queue q ! 0 = Some x"
      and least: "\<forall>p \<in> set (queue q). nonce_key (Some x) \<le> nonce_key p"
      and first: "\<forall>y. Some y \<in> set (queue q) \<longrightarrow> nonce_order x y"
      by blast
    have peek: "accountQueue_peek q = Some x" using False x by (simp add: accountQueue_peek_eq)
    show ?thesis
    proof (cases "n \<le> Nonce x")
      case True
      have run: "accountQueue_prune_loop q n acc = Inr (acc, q)"
        using peek True by (subst accountQueue_prune_loop.simps) simp
      have "\<not> nonce_below n p" if "p \<in> set (queue q)" for p
      proof (cases p)
        case None
        then show ?thesis by (simp add: nonce_below_def)
      next
        case (Some y)
        then have "Nonce x \<le> Nonce y" using first that nonce_order_Nonce by blast
        with True Some show ?thesis by (simp add: nonce_below_def)
      qed
      with run inv show ?thesis by (intro exI [of _ "[]"] exI [of _ q]) simp
    next
      case below: False
      from accountQueue_pop_correct [OF inv False] x obtain s
        where pop: "accountQueue_pop q = Inr (Some x, q\<lparr>queue := s\<rparr>)"
          and ms: "mset (queue q) = add_mset (Some x) (mset s)"
          and inv1: "account_inv (q\<lparr>queue := s\<rparr>)"
        by auto
      from "1.IH" [OF peek below pop refl inv1] obtain pr q'
        where rec: "accountQueue_prune_loop (q\<lparr>queue := s\<rparr>) n (acc @ [Some x])
                      = Inr ((acc @ [Some x]) @ pr, q')"
          and inv': "account_inv q'" and fr: "mutex q' = mutex q" "wLock q' = wLock q"
          and ms': "mset s = mset pr + mset (queue q')"
          and lo: "\<forall>p \<in> set pr. nonce_below n p" and hi: "\<forall>p \<in> set (queue q'). \<not> nonce_below n p"
          and so: "sorted (map nonce_key pr)"
        by auto
      have run: "accountQueue_prune_loop q n acc = Inr (acc @ (Some x # pr), q')"
        using peek below pop rec by (subst accountQueue_prune_loop.simps) simp
      have "set pr \<subseteq> set (queue q)"
        using ms ms' by (metis set_mset_mset subsetI union_iff set_mset_add_mset_insert insert_iff)
      then have "sorted (map nonce_key (Some x # pr))" using so least by auto
      moreover have "nonce_below n (Some x)" using below by (simp add: nonce_below_def)
      moreover have "mset (queue q) = mset (Some x # pr) + mset (queue q')"
        using ms ms' by simp
      ultimately show ?thesis
        using run inv' fr lo hi by (intro exI [of _ "Some x # pr"] exI [of _ q']) simp
    qed
  qed
qed

lemma accountQueue_prune_inv:
  assumes "account_inv q"
  shows "\<exists>pruned q'. accountQueue_prune q n = Inr (pruned, q') \<and> account_inv q'"
  using prune_loop_correct [OF assms, of n "[]"] by (auto simp: accountQueue_prune_def)

lemma accountQueue_clear_inv: "account_inv (snd (accountQueue_clear q))"
  by (auto simp: accountQueue_clear_def account_inv_def heap_ok_def heap_from_def)

lemma accountQueue_run_inv:
  "account_inv q \<Longrightarrow> list_all pushes_gas_price ops \<Longrightarrow>
     \<exists>q'. accountQueue_run ops q = Inr q' \<and> account_inv q'"
proof (induction ops arbitrary: q)
  case Nil
  then show ?case by simp
next
  case (Cons op ops)
  show ?case
  proof (cases op)
    case (OpPush tx)
    with Cons.prems accountQueue_push_correct [of q tx]
    obtain q1 where "accountQueue_push q tx = Inr q1" "account_inv q1" by auto
    with Cons.IH [of q1] Cons.prems OpPush show ?thesis by simp
  next
    case OpPop
    from accountQueue_pop_inv [OF Cons.prems(1)]
    obtain tx q1 where "accountQueue_pop q = Inr (tx, q1)" "account_inv q1" by auto
    with Cons.IH [of q1] Cons.prems OpPop show ?thesis by simp
  next
    case (OpPrune n)
    from accountQueue_prune_inv [OF Cons.prems(1), of n]
    obtain pr q1 where "accountQueue_prune q n = Inr (pr, q1)" "account_inv q1" by auto
    with Cons.IH [of q1] Cons.prems OpPrune show ?thesis by simp
  next
    case OpClear
    with Cons.IH [of "snd (accountQueue_clear q)"] Cons.prems accountQueue_clear_inv [of q]
    show ?thesis by (simp add: case_prod_beta)
  qed
qed

lemma account_inv_new: "account_inv \<lparr>mutex = m, wLock = w, queue = []\<rparr>"
  by (auto simp: account_inv_def heap_ok_def heap_from_def)

lemma account_inv_peek:
  assumes "account_inv q"
  shows "if queue q = [] then accountQueue_peek q = None
         else (\<exists>x. accountQueue_peek q = Some x \<and> Some x \<in> set (queue q)
                 \<and> (\<forall>y. Some y \<in> set (queue q) \<longrightarrow> nonce_order x y))"
proof (cases "queue q = []")
  case True
  then show ?thesis by (simp add: accountQueue_peek_eq)
next
  case False
  from account_inv_min [OF assms False] obtain x where "queue q ! 0 = Some x"
    "\<forall>y. Some y \<in> set (queue q) \<longrightarrow> nonce_order x y"
    by blast
  moreover from False have "queue q ! 0 \<in> set (queue q)" by simp
  ultimately show ?thesis using False by (simp add: accountQueue_peek_eq)
qed

lemma account_inv_no_nil: "account_inv q \<Longrightarrow> None \<notin> set (queue q)"
  by (auto simp: account_inv_def has_gas_price_def)

text \<open>
  Every queue that a sequence of operations returns, whatever records were pushed, is
  ordered; so its head is not after any other element.
\<close>

lemma accountQueue_push_ordered:
  assumes "accountQueue_push q tx = Inr q'" "ordered minNonceQueue (queue q)"
  shows "ordered minNonceQueue (queue q') \<and> mset (queue q') = add_mset tx (mset (queue q))"
proof -
  from assms(1) obtain s where s: "heap_Push minNonceQueue (queue q) (TransactionValue tx) = Inr s"
    and q': "q' = q\<lparr>queue := s\<rparr>"
    by (auto simp: accountQueue_push_def and_then_def split: sum.splits)
  from ordered_Push [OF slice_order_minNonceQueue tx_ops_minNonceQueue assms(2) s] q'
  show ?thesis by simp
qed

lemma accountQueue_pop_ordered:
  assumes "accountQueue_pop q = Inr (tx, q')" "ordered minNonceQueue (queue q)"
  shows "ordered minNonceQueue (queue q')"
proof (cases "queue q = []")
  case True
  with assms show ?thesis by (simp add: accountQueue_pop_empty)
next
  case False
  then have "accountQueue_length q \<noteq> 0"
    by (simp add: accountQueue_length_def minNonceQueue_def minNonceQueue_Len_def)
  with assms(1) obtain x s where s: "heap_Pop minNonceQueue (queue q) = Inr (x, s)"
    and q': "queue q' = s"
    by (auto simp: accountQueue_pop_def and_then_def split: sum.splits any_value.splits)
  from ordered_Pop [OF slice_order_minNonceQueue tx_ops_minNonceQueue assms(2) False s] q'
  show ?thesis by simp
qed

lemma accountQueue_prune_loop_ordered:
  "accountQueue_prune_loop q n acc = Inr (pr, q') \<Longrightarrow> ordered minNonceQueue (queue q) \<Longrightarrow>
     ordered minNonceQueue (queue q')"
proof (induction q n acc rule: accountQueue_prune_loop.induct)
  case (1 q n acc)
  note run = "1.prems"(1) and inv = "1.prems"(2)
  show ?case
  proof (cases "accountQueue_peek q")
    case None
    with run have "q' = q" by (subst (asm) accountQueue_prune_loop.simps) simp
    with inv show ?thesis by simp
  next
    case (Some x)
    show ?thesis
    proof (cases "n \<le> Nonce x")
      case True
      with run Some have "q' = q" by (subst (asm) accountQueue_prune_loop.simps) simp
      with inv show ?thesis by simp
    next
      case False
      with run Some obtain p q1 where pop: "accountQueue_pop q = Inr (p, q1)"
        and rec: "accountQueue_prune_loop q1 n (acc @ [p]) = Inr (pr, q')"
        by (subst (asm) accountQueue_prune_loop.simps) (auto split: sum.splits)
      from "1.IH" [OF Some False pop refl rec] accountQueue_pop_ordered [OF pop inv]
      show ?thesis by simp
    qed
  qed
qed

lemma accountQueue_run_ordered:
  "accountQueue_run ops q = Inr q' \<Longrightarrow> ordered minNonceQueue (queue q) \<Longrightarrow>
     ordered minNonceQueue (queue q')"
proof (induction ops arbitrary: q)
  case Nil
  then show ?case by simp
next
  case (Cons op ops)
  show ?case
  proof (cases op)
    case (OpPush tx)
    with Cons.prems(1) obtain q1 where 1: "accountQueue_push q tx = Inr q1"
      and 2: "accountQueue_run ops q1 = Inr q'"
      by (auto simp: and_then_def split: sum.splits)
    from Cons.IH [OF 2] accountQueue_push_ordered [OF 1 Cons.prems(2)] show ?thesis by simp
  next
    case OpPop
    with Cons.prems(1) obtain tx q1 where 1: "accountQueue_pop q = Inr (tx, q1)"
      and 2: "accountQueue_run ops q1 = Inr q'"
      by (auto simp: and_then_def split: sum.splits)
    from Cons.IH [OF 2] accountQueue_pop_ordered [OF 1 Cons.prems(2)] show ?thesis by simp
  next
    case (OpPrune n)
    with Cons.prems(1) obtain pr q1 where 1: "accountQueue_prune q n = Inr (pr, q1)"
      and 2: "accountQueue_run ops q1 = Inr q'"
      by (auto simp: and_then_def split: sum.splits)
    from 1 have "accountQueue_prune_loop q n [] = Inr (pr, q1)"
      by (simp add: accountQueue_prune_def)
    from Cons.IH [OF 2] accountQueue_prune_loop_ordered [OF this Cons.prems(2)]
    show ?thesis by simp
  next
    case OpClear
    with Cons.prems(1) have 2: "accountQueue_run ops (snd (accountQueue_clear q)) = Inr q'"
      by (simp add: case_prod_beta)
    have "ordered minNonceQueue (queue (snd (accountQueue_clear q)))"
      by (simp add: accountQueue_clear_def ordered_empty)
    from Cons.IH [OF 2 this] show ?thesis .
  qed
qed

lemma newAccountQueue_run_ordered:
  assumes "and_then newAccountQueue (accountQueue_run ops) = Inr q"
  shows "ordered minNonceQueue (queue q)"
  using assms accountQueue_run_ordered [of ops _ q] unfolding newAccountQueue_eq
  by (simp add: ordered_empty)

lemma peek_not_after_rest:
  assumes "and_then newAccountQueue (accountQueue_run ops) = Inr q"
  shows "if queue q = [] then accountQueue_peek q = None
         else accountQueue_peek q = queue q ! 0 \<and>
              (\<forall>m. 0 < m \<and> m < length (queue q) \<longrightarrow>
                 (\<exists>x y. accountQueue_peek q = Some x \<and> queue q ! m = Some y \<and>
                    (Nonce x < Nonce y \<or>
                     (Nonce x = Nonce y \<and>
                      (case (GasPrice x, GasPrice y) of
                         (Some gx, Some gy) \<Rightarrow> gy \<le> gx
                       | (None, None) \<Rightarrow> True
                       | _ \<Rightarrow> False)))))"
proof (cases "queue q = []")
  case True
  then show ?thesis by (simp add: accountQueue_peek_eq)
next
  case False
  have inv: "ordered minNonceQueue (queue q)" by (rule newAccountQueue_run_ordered [OF assms])
  have "not_after minNonceQueue (queue q ! 0) (queue q ! m)" if "0 < m" "m < length (queue q)" for m
    using ordered_root [OF slice_order_minNonceQueue inv that] .
  then show ?thesis
    using False unfolding not_after_minNonceQueue by (simp add: accountQueue_peek_eq)
qed

text \<open>
  On such a queue \<open>prune n\<close>, whenever it returns, returns exactly the elements with a
  nonce below \<open>n\<close>, in ascending order of nonce, and keeps exactly the others. A nil
  pointer can be the only element of a queue, and stays.
\<close>

lemma ordered_head_nonce:
  assumes "ordered minNonceQueue s" "s ! 0 = Some x" "p \<in> set s"
  shows "\<exists>y. p = Some y \<and> Nonce x \<le> Nonce y"
proof -
  from assms(3) obtain m where m: "m < length s" "s ! m = p" by (auto simp: in_set_conv_nth)
  show ?thesis
  proof (cases "m = 0")
    case True
    with m assms(2) show ?thesis by auto
  next
    case False
    then have "not_after minNonceQueue (s ! 0) (s ! m)"
      using ordered_root [OF slice_order_minNonceQueue assms(1), of m] m by simp
    with assms(2) m show ?thesis
      unfolding not_after_minNonceQueue by auto
  qed
qed

lemma ordered_head_nil:
  assumes "ordered minNonceQueue s" "s \<noteq> []" "s ! 0 = None"
  shows "s = [None]"
proof -
  have "length s = 1"
  proof (rule ccontr)
    assume "length s \<noteq> 1"
    with assms(2) have "1 < length s" by (cases s) auto
    then have "not_after minNonceQueue (s ! 0) (s ! 1)"
      using ordered_root [OF slice_order_minNonceQueue assms(1), of 1] by simp
    with assms(3) show False unfolding not_after_minNonceQueue by simp
  qed
  with assms(3) show ?thesis by (cases s) auto
qed

lemma accountQueue_pop_head:
  assumes "accountQueue_pop q = Inr (p, q')" "ordered minNonceQueue (queue q)" "queue q \<noteq> []"
  shows "p = queue q ! 0 \<and> mset (queue q) = add_mset p (mset (queue q'))"
proof -
  from assms(3) have "accountQueue_length q \<noteq> 0"
    by (simp add: accountQueue_length_def minNonceQueue_def minNonceQueue_Len_def)
  with assms(1) obtain x s where s: "heap_Pop minNonceQueue (queue q) = Inr (x, s)"
    and q': "queue q' = s" and p: "p = (case x of TransactionValue v \<Rightarrow> v | OtherValue \<Rightarrow> None)"
    by (auto simp: accountQueue_pop_def and_then_def split: sum.splits any_value.splits)
  from ordered_Pop [OF slice_order_minNonceQueue tx_ops_minNonceQueue assms(2,3) s] q' p
  show ?thesis by simp
qed

lemma accountQueue_prune_loop_returns:
  "accountQueue_prune_loop q n acc = Inr (res, q') \<Longrightarrow> ordered minNonceQueue (queue q) \<Longrightarrow>
     \<exists>ts. res = acc @ map Some ts
       \<and> mset (queue q) = mset (map Some ts) + mset (queue q')
       \<and> (\<forall>t \<in> set ts. Nonce t < n) \<and> (\<forall>p \<in> set (queue q'). \<not> nonce_below n p)
       \<and> sorted (map Nonce ts)"
proof (induction q n acc rule: accountQueue_prune_loop.induct)
  case (1 q n acc)
  note run = "1.prems"(1) and inv = "1.prems"(2)
  show ?case
  proof (cases "accountQueue_peek q")
    case None
    with run have eq: "res = acc" "q' = q" by (subst (asm) accountQueue_prune_loop.simps; simp)+
    have "queue q = [] \<or> queue q = [None]"
      using None ordered_head_nil [OF inv] by (auto simp: accountQueue_peek_eq split: if_splits)
    then have "\<forall>p \<in> set (queue q). \<not> nonce_below n p" by (auto simp: nonce_below_def)
    with eq show ?thesis by (intro exI [of _ "[]"]) simp
  next
    case (Some x)
    then have ne: "queue q \<noteq> []" and head: "queue q ! 0 = Some x"
      by (auto simp: accountQueue_peek_eq split: if_splits)
    note least = ordered_head_nonce [OF inv head]
    show ?thesis
    proof (cases "n \<le> Nonce x")
      case True
      with run Some have eq: "res = acc" "q' = q"
        by (subst (asm) accountQueue_prune_loop.simps; simp)+
      have "\<not> nonce_below n p" if "p \<in> set (queue q)" for p
        using least [OF that] True by (auto simp: nonce_below_def)
      with eq show ?thesis by (intro exI [of _ "[]"]) simp
    next
      case False
      with run Some obtain p q1 where pop: "accountQueue_pop q = Inr (p, q1)"
        and rec: "accountQueue_prune_loop q1 n (acc @ [p]) = Inr (res, q')"
        by (subst (asm) accountQueue_prune_loop.simps) (auto split: sum.splits)
      from accountQueue_pop_head [OF pop inv ne] head
      have p: "p = Some x" and ms: "mset (queue q) = add_mset (Some x) (mset (queue q1))"
        by simp_all
      from "1.IH" [OF Some False pop refl rec accountQueue_pop_ordered [OF pop inv]]
      obtain ts where res: "res = (acc @ [p]) @ map Some ts"
        and ms': "mset (queue q1) = mset (map Some ts) + mset (queue q')"
        and lo: "\<forall>t \<in> set ts. Nonce t < n" and hi: "\<forall>p \<in> set (queue q'). \<not> nonce_below n p"
        and so: "sorted (map Nonce ts)"
        by blast
      have "Nonce x \<le> Nonce t" if "t \<in> set ts" for t
      proof -
        have "Some t \<in># mset (map Some ts)" using that by simp
        then have "Some t \<in># mset (queue q)" using ms ms' by simp
        then have "Some t \<in> set (queue q)" by simp
        from least [OF this] show ?thesis by simp
      qed
      then have "sorted (map Nonce (x # ts))" using so by auto
      moreover have "Nonce x < n" using False by simp
      moreover have "mset (queue q) = mset (map Some (x # ts)) + mset (queue q')"
        using ms ms' by simp
      moreover have "res = acc @ map Some (x # ts)" using res p by simp
      ultimately show ?thesis
        using lo hi by (intro exI [of _ "x # ts"]) simp
    qed
  qed
qed

lemma prune_returns_below:
  assumes "and_then newAccountQueue (accountQueue_run ops) = Inr q"
    and "accountQueue_prune q n = Inr (pruned, q')"
  shows "\<exists>ts. pruned = map Some ts
           \<and> mset pruned = filter_mset (nonce_below n) (mset (queue q))
           \<and> mset (queue q') = filter_mset (\<lambda>p. \<not> nonce_below n p) (mset (queue q))
           \<and> (\<forall>t. Some t \<in> set (queue q') \<longrightarrow> n \<le> Nonce t)
           \<and> sorted (map Nonce ts)"
proof -
  have inv: "ordered minNonceQueue (queue q)" by (rule newAccountQueue_run_ordered [OF assms(1)])
  from assms(2) have "accountQueue_prune_loop q n [] = Inr (pruned, q')"
    by (simp add: accountQueue_prune_def)
  from accountQueue_prune_loop_returns [OF this inv] obtain ts
    where ts: "pruned = map Some ts"
      and ms: "mset (queue q) = mset (map Some ts) + mset (queue q')"
      and lo: "\<forall>t \<in> set ts. Nonce t < n" and hi: "\<forall>p \<in> set (queue q'). \<not> nonce_below n p"
      and so: "sorted (map Nonce ts)"
    by auto
  have lo': "\<forall>p \<in> set (map Some ts). nonce_below n p" using lo by (auto simp: nonce_below_def)
  have f1: "filter_mset (nonce_below n) (mset (map Some ts)) = mset (map Some ts)"
    using lo' by (auto simp: filter_mset_eq_conv)
  have f2: "filter_mset (nonce_below n) (mset (queue q')) = {#}"
    using hi by (simp add: filter_mset_eq_mempty_iff)
  have f3: "filter_mset (\<lambda>p. \<not> nonce_below n p) (mset (map Some ts)) = {#}"
    using lo' by (auto simp: filter_mset_eq_mempty_iff)
  have f4: "filter_mset (\<lambda>p. \<not> nonce_below n p) (mset (queue q')) = mset (queue q')"
    using hi by (simp add: filter_mset_eq_conv)
  have "n \<le> Nonce t" if "Some t \<in> set (queue q')" for t
    using hi that by (auto simp: nonce_below_def)
  then show ?thesis
    using ts ms f1 f2 f3 f4 so by (intro exI [of _ ts]) simp
qed

text \<open>
  Queues of records that all carry a gas price. Start from \<open>newAccountQueue\<close> and
  apply any sequence of pushes, pops, prunes and clears in which every pushed pointer
  is a record with a gas price. The sequence runs without a panic and leaves a queue
  of records (no nil pointer), in which \<open>peek\<close> returns nil when the queue is empty
  and otherwise an element of the queue that is first in the order "nonce ascending,
  then gas price descending" among all elements of the queue.
\<close>

lemma gas_priced_peek_is_minimum:
  assumes "list_all pushes_gas_price ops"
  shows "\<exists>q. and_then newAccountQueue (accountQueue_run ops) = Inr q \<and>
           None \<notin> set (queue q) \<and>
           (if queue q = [] then accountQueue_peek q = None
            else (\<exists>x. accountQueue_peek q = Some x \<and> Some x \<in> set (queue q)
                    \<and> (\<forall>y. Some y \<in> set (queue q) \<longrightarrow> nonce_order x y)))"
proof -
  from accountQueue_run_inv [OF account_inv_new assms]
  obtain q where "and_then newAccountQueue (accountQueue_run ops) = Inr q" "account_inv q"
    unfolding newAccountQueue_eq by auto
  with account_inv_peek account_inv_no_nil show ?thesis by blast
qed

lemma gas_priced_peek_is_minimum_example:
  "list_all pushes_gas_price
     [OpPush (Some (legacy_tx 7 10 1)), OpPush (Some (legacy_tx 7 20 2))]
   \<and> (\<exists>q. and_then newAccountQueue (accountQueue_run
              [OpPush (Some (legacy_tx 7 10 1)), OpPush (Some (legacy_tx 7 20 2))]) = Inr q
          \<and> accountQueue_peek q = Some (legacy_tx 7 20 2))"
proof -
  let ?ops = "[OpPush (Some (legacy_tx 7 10 1)), OpPush (Some (legacy_tx 7 20 2))]"
  have h: "list_all pushes_gas_price ?ops"
    by (simp add: has_gas_price_def legacy_tx_def)
  from gas_priced_peek_is_minimum [OF h] obtain q
    where run: "and_then newAccountQueue (accountQueue_run ?ops) = Inr q"
      and pk: "if queue q = [] then accountQueue_peek q = None
               else (\<exists>x. accountQueue_peek q = Some x \<and> Some x \<in> set (queue q)
                       \<and> (\<forall>y. Some y \<in> set (queue q) \<longrightarrow> nonce_order x y))"
    by blast
  have "and_then newAccountQueue (accountQueue_run ?ops)
          = Inr \<lparr>mutex = \<lparr>writer = False, readers = 0\<rparr>, wLock = 0,
                 queue = [Some (legacy_tx 7 20 2), Some (legacy_tx 7 10 1)]\<rparr>"
    by code_simp
  with run have qq: "queue q = [Some (legacy_tx 7 20 2), Some (legacy_tx 7 10 1)]" by auto
  with pk obtain x where x: "accountQueue_peek q = Some x"
    "x = legacy_tx 7 20 2 \<or> x = legacy_tx 7 10 1" "nonce_order x (legacy_tx 7 20 2)"
    by auto
  have "\<not> nonce_order (legacy_tx 7 10 1) (legacy_tx 7 20 2)"
    by (simp add: nonce_order_def legacy_tx_def)
  with x have "accountQueue_peek q = Some (legacy_tx 7 20 2)" by auto
  with h run show ?thesis by blast
qed

text \<open>
  C4. After any pushes and pops \<open>peek\<close> is to return the element that is first by
  nonce and, among elements of one nonce, the higher-paying one. \<open>minNonceQueue.Less\<close>
  settles equal nonces on the field \<open>GasPrice\<close> alone ("The higher gas price Tx comes
  first if the nonces are same"), where the comparator of the price-ordered queue reads
  the fee through \<open>GetGasFeeCap\<close> and \<open>GetGasTipCap\<close>. Of two dynamic-fee records with
  nonce 7, pushed in this order, the first with tip cap and fee cap 10 and the second
  with 20, \<open>peek\<close> returns the first, which pays less: between two nil gas prices \<open>Cmp\<close>
  returns 0, and the queue stays in the order of arrival. It is the same for their
  copies, whose gas price \<open>Copy\<close> sets to 0. And pushing a dynamic-fee record onto a
  legacy record of the same nonce and sender panics: \<open>Cmp\<close> reads the first through nil.
\<close>

theorem peek_misses_higher_paying:
  "and_then newAccountQueue (accountQueue_run
      [OpPush (Some (dynamic_tx 7 10 10 1)), OpPush (Some (dynamic_tx 7 20 20 2))])
     = Inr \<lparr>mutex = \<lparr>writer = False, readers = 0\<rparr>, wLock = 0,
            queue = [Some (dynamic_tx 7 10 10 1), Some (dynamic_tx 7 20 20 2)]\<rparr>
   \<and> accountQueue_peek
        \<lparr>mutex = \<lparr>writer = False, readers = 0\<rparr>, wLock = 0,
         queue = [Some (dynamic_tx 7 10 10 1), Some (dynamic_tx 7 20 20 2)]\<rparr>
     = Some (dynamic_tx 7 10 10 1)
   \<and> and_then newAccountQueue (accountQueue_run
      [OpPush (Some ((dynamic_tx 7 10 10 1)\<lparr>GasPrice := Some 0\<rparr>)),
       OpPush (Some ((dynamic_tx 7 20 20 2)\<lparr>GasPrice := Some 0\<rparr>))])
     = Inr \<lparr>mutex = \<lparr>writer = False, readers = 0\<rparr>, wLock = 0,
            queue = [Some ((dynamic_tx 7 10 10 1)\<lparr>GasPrice := Some 0\<rparr>),
                     Some ((dynamic_tx 7 20 20 2)\<lparr>GasPrice := Some 0\<rparr>)]\<rparr>
   \<and> accountQueue_peek
        \<lparr>mutex = \<lparr>writer = False, readers = 0\<rparr>, wLock = 0,
         queue = [Some ((dynamic_tx 7 10 10 1)\<lparr>GasPrice := Some 0\<rparr>),
                  Some ((dynamic_tx 7 20 20 2)\<lparr>GasPrice := Some 0\<rparr>)]\<rparr>
     = Some ((dynamic_tx 7 10 10 1)\<lparr>GasPrice := Some 0\<rparr>)
   \<and> and_then newAccountQueue (accountQueue_run
      [OpPush (Some (legacy_tx 7 10 1)), OpPush (Some (dynamic_tx_of 1 7 20 20 2))])
     = Inl NilPointerDereference"
  by code_simp

lemma all_Some_map:
  assumes "\<forall>p \<in> set ps. p \<noteq> None"
  shows "\<exists>ts. ps = map Some ts"
  using assms
proof (induction ps)
  case Nil
  then show ?case by simp
next
  case (Cons p ps)
  then obtain ts t where "ps = map Some ts" "p = Some t" by auto
  then have "p # ps = map Some (t # ts)" by simp
  then show ?case by (rule exI)
qed

text \<open>
  On every queue produced by such a sequence and for every threshold \<open>n\<close>,
  \<open>prune n\<close> returns normally; the returned list holds exactly the elements of the
  queue whose nonce is below \<open>n\<close>, the queue keeps exactly the others (so none of
  the remaining nonces is below \<open>n\<close>), and the returned list is in ascending order
  of nonce (equal nonces by descending gas price).
\<close>

lemma gas_priced_prune_removes_below:
  assumes "list_all pushes_gas_price ops"
    and "and_then newAccountQueue (accountQueue_run ops) = Inr q"
  shows "\<exists>ts q'. accountQueue_prune q n = Inr (map Some ts, q')
           \<and> mset (map Some ts) = filter_mset (nonce_below n) (mset (queue q))
           \<and> mset (queue q') = filter_mset (\<lambda>p. \<not> nonce_below n p) (mset (queue q))
           \<and> (\<forall>t. Some t \<in> set (queue q') \<longrightarrow> n \<le> Nonce t)
           \<and> sorted (map Nonce ts) \<and> sorted_wrt nonce_order ts"
proof -
  from accountQueue_run_inv [OF account_inv_new assms(1), of "\<lparr>writer = False, readers = 0\<rparr>" 0]
    assms(2)
  have inv: "account_inv q" unfolding newAccountQueue_eq by auto
  from prune_loop_correct [OF inv, of n "[]"] obtain pr q'
    where run: "accountQueue_prune q n = Inr (pr, q')"
      and ms: "mset (queue q) = mset pr + mset (queue q')"
      and lo: "\<forall>p \<in> set pr. nonce_below n p" and hi: "\<forall>p \<in> set (queue q'). \<not> nonce_below n p"
      and so: "sorted (map nonce_key pr)"
    by (auto simp: accountQueue_prune_def)
  have sub: "set pr \<subseteq> set (queue q)"
    using ms by (metis set_mset_mset subsetI union_iff)
  then have gp: "\<forall>p \<in> set pr. has_gas_price p" using inv by (auto simp: account_inv_def)
  then have "\<forall>p \<in> set pr. p \<noteq> None" by (auto simp: has_gas_price_def split: option.splits)
  then obtain ts where ts: "pr = map Some ts" using all_Some_map by blast
  have f1: "filter_mset (nonce_below n) (mset pr) = mset pr"
    using lo by (simp add: filter_mset_eq_conv)
  have f2: "filter_mset (nonce_below n) (mset (queue q')) = {#}"
    using hi by (simp add: filter_mset_eq_mempty_iff)
  have f3: "filter_mset (\<lambda>p. \<not> nonce_below n p) (mset pr) = {#}"
    using lo by (simp add: filter_mset_eq_mempty_iff)
  have f4: "filter_mset (\<lambda>p. \<not> nonce_below n p) (mset (queue q')) = mset (queue q')"
    using hi by (simp add: filter_mset_eq_conv)
  have "sorted_wrt (\<lambda>a b. nonce_key (Some a) \<le> nonce_key (Some b)) ts"
    using so unfolding ts by (simp add: sorted_map sorted_wrt_map)
  then have ord: "sorted_wrt nonce_order ts"
  proof (rule sorted_wrt_mono_rel [rotated])
    fix a b assume "a \<in> set ts" "b \<in> set ts" "nonce_key (Some a) \<le> nonce_key (Some b)"
    then show "nonce_order a b" using gp nonce_key_le [of a b] by (simp add: ts)
  qed
  then have "sorted_wrt (\<lambda>a b. Nonce a \<le> Nonce b) ts"
    by (rule sorted_wrt_mono_rel [rotated]) (rule nonce_order_Nonce)
  then have "sorted (map Nonce ts)" by (simp add: sorted_map)
  moreover have "n \<le> Nonce t" if "Some t \<in> set (queue q')" for t
    using hi that by (auto simp: nonce_below_def)
  ultimately show ?thesis
    using run ms f1 f2 f3 f4 ord unfolding ts
    by (intro exI [of _ ts] exI [of _ q']) simp
qed

lemma gas_priced_prune_removes_below_example:
  "list_all pushes_gas_price
     [OpPush (Some (legacy_tx 15 1 4)), OpPush (Some (legacy_tx 3 1 1)),
      OpPush (Some (legacy_tx 12 1 3)), OpPush (Some (legacy_tx 7 1 2))]
   \<and> (\<exists>q q'. and_then newAccountQueue (accountQueue_run
          [OpPush (Some (legacy_tx 15 1 4)), OpPush (Some (legacy_tx 3 1 1)),
           OpPush (Some (legacy_tx 12 1 3)), OpPush (Some (legacy_tx 7 1 2))]) = Inr q
        \<and> accountQueue_prune q 10
            = Inr ([Some (legacy_tx 3 1 1), Some (legacy_tx 7 1 2)], q')
        \<and> mset (queue q') = {#Some (legacy_tx 12 1 3), Some (legacy_tx 15 1 4)#}
        \<and> (\<forall>t. Some t \<in> set (queue q') \<longrightarrow> 10 \<le> Nonce t))"
proof -
  let ?ops = "[OpPush (Some (legacy_tx 15 1 4)), OpPush (Some (legacy_tx 3 1 1)),
      OpPush (Some (legacy_tx 12 1 3)), OpPush (Some (legacy_tx 7 1 2))]"
  let ?q = "\<lparr>mutex = \<lparr>writer = False, readers = 0\<rparr>, wLock = 0,
             queue = [Some (legacy_tx 3 1 1), Some (legacy_tx 7 1 2),
                      Some (legacy_tx 12 1 3), Some (legacy_tx 15 1 4)]\<rparr>"
  have h: "list_all pushes_gas_price ?ops"
    by (simp add: has_gas_price_def legacy_tx_def)
  have run: "and_then newAccountQueue (accountQueue_run ?ops) = Inr ?q"
    by code_simp
  have ev: "accountQueue_prune ?q 10
      = Inr ([Some (legacy_tx 3 1 1), Some (legacy_tx 7 1 2)],
             ?q\<lparr>queue := [Some (legacy_tx 12 1 3), Some (legacy_tx 15 1 4)]\<rparr>)"
    by code_simp
  from gas_priced_prune_removes_below [OF h run, of 10] obtain ts q'
    where p: "accountQueue_prune ?q 10 = Inr (map Some ts, q')"
      and rest: "\<forall>t. Some t \<in> set (queue q') \<longrightarrow> 10 \<le> Nonce t"
    by blast
  from p ev have "q' = ?q\<lparr>queue := [Some (legacy_tx 12 1 3), Some (legacy_tx 15 1 4)]\<rparr>"
    by simp
  with rest have "\<forall>t. Some t \<in> set (queue (?q\<lparr>queue := [Some (legacy_tx 12 1 3),
      Some (legacy_tx 15 1 4)]\<rparr>)) \<longrightarrow> 10 \<le> Nonce t"
    by simp
  with h run ev show ?thesis
    by (intro conjI exI [of _ ?q]
        exI [of _ "?q\<lparr>queue := [Some (legacy_tx 12 1 3), Some (legacy_tx 15 1 4)]\<rparr>"])
      simp_all
qed

text \<open>
  C3. On every per-account queue \<open>prune n\<close> is to remove exactly the elements with a
  nonce below \<open>n\<close> and to return them in ascending order of nonce. Pushing, for one
  sender, a legacy record with nonce 1, a legacy record with nonce 7 and a dynamic-fee
  record with nonce 7 builds the queue of the three in this order without a panic: the
  two records of nonce 7 are never compared. \<open>prune 5\<close> on it is to return the
  record with nonce 1 and keep the other two. It panics instead: \<open>pop\<close> moves the last
  element to the root, \<open>down\<close> calls \<open>Less\<close> on the two records of nonce 7, and \<open>Cmp\<close>
  of the legacy record's gas price reads the nil gas price of the dynamic-fee record.
\<close>

theorem prune_panics_on_mixed_nonce:
  "and_then newAccountQueue (accountQueue_run
      [OpPush (Some (legacy_tx 1 10 1)), OpPush (Some (legacy_tx 7 10 2)),
       OpPush (Some (dynamic_tx_of 1 7 10 20 3))])
     = Inr \<lparr>mutex = \<lparr>writer = False, readers = 0\<rparr>, wLock = 0,
            queue = [Some (legacy_tx 1 10 1), Some (legacy_tx 7 10 2),
                     Some (dynamic_tx_of 1 7 10 20 3)]\<rparr>
   \<and> accountQueue_prune
        \<lparr>mutex = \<lparr>writer = False, readers = 0\<rparr>, wLock = 0,
         queue = [Some (legacy_tx 1 10 1), Some (legacy_tx 7 10 2),
                  Some (dynamic_tx_of 1 7 10 20 3)]\<rparr> 5
     = Inl NilPointerDereference"
  by code_simp

section \<open>Empty queues\<close>

text \<open>
  C8. On an empty per-account queue \<open>peek\<close> returns nil and \<open>pop\<close> returns nil
  normally, leaving the queue as it was; on an empty price-ordered queue \<open>Peek\<close>
  returns nil and \<open>pop\<close> returns nil normally, leaving the queue as it was. None of
  them panics.
\<close>

theorem empty_queue_no_value:
  "(queue q = [] \<longrightarrow> accountQueue_peek q = None \<and> accountQueue_pop q = Inr (None, q))
   \<and> (txs p = [] \<longrightarrow> maxPriceQueue_Peek p = None \<and> pricedQueue_pop p = Inr (None, p))"
  by (simp add: accountQueue_peek_eq accountQueue_pop_empty maxPriceQueue_Peek_def
      pricedQueue_pop_def pricedQueue_length_def maxPriceQueue_heap_def maxPriceQueue_Len_def)

lemma newPricesQueue_empty: "newPricesQueue base [] = Inr \<lparr>baseFee = Some (uint base), txs = []\<rparr>"
  by (simp add: newPricesQueue_def Let_def heap_Init_empty maxPriceQueue_heap_def
      maxPriceQueue_Len_def)

theorem empty_queue_no_value_witness:
  "newAccountQueue = Inr \<lparr>mutex = \<lparr>writer = False, readers = 0\<rparr>, wLock = 0, queue = []\<rparr>
   \<and> accountQueue_peek \<lparr>mutex = \<lparr>writer = False, readers = 0\<rparr>, wLock = 0, queue = []\<rparr> = None
   \<and> accountQueue_pop \<lparr>mutex = \<lparr>writer = False, readers = 0\<rparr>, wLock = 0, queue = []\<rparr>
       = Inr (None, \<lparr>mutex = \<lparr>writer = False, readers = 0\<rparr>, wLock = 0, queue = []\<rparr>)
   \<and> newPricesQueue 100 [] = Inr \<lparr>baseFee = Some 100, txs = []\<rparr>
   \<and> pricedQueue_pop \<lparr>baseFee = Some 100, txs = []\<rparr>
       = Inr (None, \<lparr>baseFee = Some 100, txs = []\<rparr>)"
  using empty_queue_no_value
    [of "\<lparr>mutex = \<lparr>writer = False, readers = 0\<rparr>, wLock = 0, queue = []\<rparr>"
        "\<lparr>baseFee = Some 100, txs = []\<rparr>"]
  by (simp add: newAccountQueue_eq newPricesQueue_empty)

section \<open>The price-ordered queue\<close>

text \<open>Pushing a batch, and the whole life of a queue that is filled and then drained.\<close>

fun pricedQueue_push_all :: "TxPtr list \<Rightarrow> pricedQueue \<Rightarrow> panic + pricedQueue" where
  "pricedQueue_push_all [] q = Inr q"
| "pricedQueue_push_all (tx # rest) q =
     and_then (pricedQueue_push q tx) (pricedQueue_push_all rest)"

definition drain :: "64 word \<Rightarrow> TxPtr list \<Rightarrow> TxPtr list \<Rightarrow> panic + TxPtr list" where
  "drain base initialTxs pushed =
     and_then (newPricesQueue base initialTxs) (\<lambda>q.
     and_then (pricedQueue_push_all pushed q) pricedQueue_pop_all)"

text \<open>
  The order of the specification, section 4.2: the price tiers, then the lower nonce.
\<close>

definition spec_ranks_higher :: "int \<Rightarrow> Transaction \<Rightarrow> Transaction \<Rightarrow> bool" where
  "spec_ranks_higher fee a b \<longleftrightarrow>
     spec_compare a b fee = 1 \<or> (spec_compare a b fee = 0 \<and> Nonce a < Nonce b)"

definition priced_inv :: "int \<Rightarrow> pricedQueue \<Rightarrow> bool" where
  "priced_inv fee q \<longleftrightarrow>
     baseFee q = Some fee \<and> heap_ok (price_key fee) (txs q) \<and> set (txs q) \<subseteq> Collect priced"

lemma price_key_ranks:
  assumes "0 \<le> fee"
  shows "price_key fee (Some a) < price_key fee (Some b) \<longleftrightarrow> spec_ranks_higher fee a b"
  using assms
  by (auto simp: price_key_def spec_ranks_higher_def spec_compare_def larger_wins_def
      less_prod_def word_less_nat_alt split: if_splits)

lemma newPricesQueue_correct:
  assumes "list_all priced initialTxs"
  shows "\<exists>q. newPricesQueue base initialTxs = Inr q \<and> priced_inv (uint base) q
           \<and> mset (txs q) = mset initialTxs"
proof -
  have W: "set initialTxs \<subseteq> Collect priced" using assms by (auto simp: list_all_iff)
  from heap_Init_correct [OF slice_heap_maxPriceQueue W, of "uint base"]
  obtain s where s: "heap_Init (maxPriceQueue_heap (Some (uint base))) initialTxs = Inr s"
    "mset s = mset initialTxs" "heap_ok (price_key (uint base)) s"
    by blast
  then have "set s = set initialTxs" by (metis set_mset_mset)
  with s W show ?thesis
    by (intro exI [of _ "\<lparr>baseFee = Some (uint base), txs = s\<rparr>"])
      (simp add: newPricesQueue_def Let_def priced_inv_def)
qed

lemma pricedQueue_push_correct:
  assumes "priced_inv fee q" "priced tx"
  shows "\<exists>s. pricedQueue_push q tx = Inr (q\<lparr>txs := s\<rparr>)
           \<and> mset s = add_mset tx (mset (txs q)) \<and> priced_inv fee (q\<lparr>txs := s\<rparr>)"
proof -
  have bf: "baseFee q = Some fee" using assms(1) by (simp add: priced_inv_def)
  from heap_Push_correct [OF slice_heap_maxPriceQueue tx_ops_maxPriceQueue, of "txs q" tx fee]
    assms
  obtain s where s: "heap_Push (maxPriceQueue_heap (Some fee)) (txs q) (TransactionValue tx) = Inr s"
    "mset s = add_mset tx (mset (txs q))" "heap_ok (price_key fee) s"
    by (auto simp: priced_inv_def)
  then have "set s = insert tx (set (txs q))" by (metis set_mset_mset set_mset_add_mset_insert)
  with s assms show ?thesis
    by (intro exI [of _ s]) (auto simp: pricedQueue_push_def priced_inv_def)
qed

lemma pricedQueue_push_all_correct:
  "priced_inv fee q \<Longrightarrow> list_all priced pushed \<Longrightarrow>
     \<exists>q'. pricedQueue_push_all pushed q = Inr q' \<and> priced_inv fee q'
       \<and> mset (txs q') = mset (txs q) + mset pushed"
proof (induction pushed arbitrary: q)
  case Nil
  then show ?case by simp
next
  case (Cons tx rest)
  from pricedQueue_push_correct [OF Cons.prems(1), of tx] Cons.prems(2)
  obtain s where s: "pricedQueue_push q tx = Inr (q\<lparr>txs := s\<rparr>)"
    "mset s = add_mset tx (mset (txs q))" "priced_inv fee (q\<lparr>txs := s\<rparr>)"
    by auto
  from Cons.IH [OF s(3)] Cons.prems(2)
  obtain q' where "pricedQueue_push_all rest (q\<lparr>txs := s\<rparr>) = Inr q'" "priced_inv fee q'"
    "mset (txs q') = mset (txs (q\<lparr>txs := s\<rparr>)) + mset rest"
    by auto
  with s show ?case by (intro exI [of _ q']) simp
qed

lemma pricedQueue_pop_correct:
  assumes "priced_inv fee q" "txs q \<noteq> []"
  shows "\<exists>s. pricedQueue_pop q = Inr (txs q ! 0, q\<lparr>txs := s\<rparr>)
           \<and> mset (txs q) = add_mset (txs q ! 0) (mset s) \<and> priced_inv fee (q\<lparr>txs := s\<rparr>)"
proof -
  have bf: "baseFee q = Some fee" using assms(1) by (simp add: priced_inv_def)
  from heap_Pop_correct [OF slice_heap_maxPriceQueue tx_ops_maxPriceQueue, of "txs q" fee] assms
  obtain s where s: "heap_Pop (maxPriceQueue_heap (Some fee)) (txs q)
                       = Inr (TransactionValue (txs q ! 0), s)"
    "mset (txs q) = add_mset (txs q ! 0) (mset s)" "heap_ok (price_key fee) s"
    by (auto simp: priced_inv_def)
  then have "set s \<subseteq> set (txs q)" by (metis set_mset_mset set_mset_add_mset_insert subset_insertI)
  with s assms show ?thesis
    by (intro exI [of _ s])
      (auto simp: pricedQueue_pop_def priced_inv_def pricedQueue_length_def
        maxPriceQueue_heap_def maxPriceQueue_Len_def)
qed

lemma pricedQueue_length_eq: "pricedQueue_length q = int (length (txs q))"
  by (simp add: pricedQueue_length_def maxPriceQueue_heap_def maxPriceQueue_Len_def)

lemma pricedQueue_pop_all_correct:
  "priced_inv fee q \<Longrightarrow>
     \<exists>out. pricedQueue_pop_all q = Inr out \<and> mset out = mset (txs q)
       \<and> sorted (map (price_key fee) out)"
proof (induction q rule: pricedQueue_pop_all.induct)
  case (1 q)
  note inv = "1.prems"
  show ?case
  proof (cases "txs q = []")
    case True
    then have "pricedQueue_pop_all q = Inr []"
      by (subst pricedQueue_pop_all.simps) (simp add: pricedQueue_length_eq)
    with True show ?thesis by simp
  next
    case False
    then have len: "pricedQueue_length q \<noteq> 0" by (simp add: pricedQueue_length_eq)
    from pricedQueue_pop_correct [OF inv False] obtain s
      where pop: "pricedQueue_pop q = Inr (txs q ! 0, q\<lparr>txs := s\<rparr>)"
        and ms: "mset (txs q) = add_mset (txs q ! 0) (mset s)"
        and inv1: "priced_inv fee (q\<lparr>txs := s\<rparr>)"
      by blast
    from "1.IH" [OF len pop refl inv1] obtain out
      where rec: "pricedQueue_pop_all (q\<lparr>txs := s\<rparr>) = Inr out" and mo: "mset out = mset s"
        and so: "sorted (map (price_key fee) out)"
      by auto
    have run: "pricedQueue_pop_all q = Inr (txs q ! 0 # out)"
      using len pop rec by (subst pricedQueue_pop_all.simps) simp
    have "set out \<subseteq> set (txs q)"
      using ms mo by (metis set_mset_mset set_mset_add_mset_insert subset_insertI)
    then have "\<forall>p \<in> set out. price_key fee (txs q ! 0) \<le> price_key fee p"
      using heap_ok_min [of "price_key fee" "txs q"] inv by (auto simp: priced_inv_def)
    with so have "sorted (map (price_key fee) (txs q ! 0 # out))" by simp
    with run ms mo show ?thesis by simp
  qed
qed

lemma drain_correct:
  assumes "list_all priced (initialTxs @ pushed)"
  shows "\<exists>out. drain base initialTxs pushed = Inr out \<and> mset out = mset (initialTxs @ pushed)
           \<and> sorted (map (price_key (uint base)) out)"
proof -
  from assms have a: "list_all priced initialTxs" "list_all priced pushed" by simp_all
  from newPricesQueue_correct [OF a(1), of base] obtain q
    where q: "newPricesQueue base initialTxs = Inr q" "priced_inv (uint base) q"
      "mset (txs q) = mset initialTxs"
    by blast
  from pricedQueue_push_all_correct [OF q(2) a(2)] obtain q'
    where q': "pricedQueue_push_all pushed q = Inr q'" "priced_inv (uint base) q'"
      "mset (txs q') = mset (txs q) + mset pushed"
    by blast
  from pricedQueue_pop_all_correct [OF q'(2)] obtain out
    where "pricedQueue_pop_all q' = Inr out" "mset out = mset (txs q')"
      "sorted (map (price_key (uint base)) out)"
    by blast
  with q q' show ?thesis by (simp add: drain_def)
qed

lemma priced_Some: "priced p \<Longrightarrow> \<exists>t. p = Some t \<and> fee_populated t"
  by (cases p) (simp_all add: priced_def)

lemma spec_ranks_higher_irrefl: "\<not> spec_ranks_higher fee a a"
  by (simp add: spec_ranks_higher_def spec_compare_def larger_wins_def)

lemma drain_order:
  assumes "list_all priced (initialTxs @ pushed)"
  shows "\<exists>out. drain base initialTxs pushed = Inr out
           \<and> mset out = mset (initialTxs @ pushed)
           \<and> (\<forall>i j a b. i < j \<and> j < length out \<and> out ! i = Some a \<and> out ! j = Some b
                 \<longrightarrow> \<not> spec_ranks_higher (uint base) b a)
           \<and> (\<forall>i j a b. i < length out \<and> j < length out \<and> out ! i = Some a \<and> out ! j = Some b
                 \<and> spec_ranks_higher (uint base) a b \<longrightarrow> i < j)"
proof -
  let ?F = "uint base"
  from drain_correct [OF assms, of base] obtain out
    where out: "drain base initialTxs pushed = Inr out"
      "mset out = mset (initialTxs @ pushed)" "sorted (map (price_key ?F) out)"
    by blast
  have F0: "0 \<le> ?F" by simp
  have later: "\<not> spec_ranks_higher ?F b a"
    if "i < j" "j < length out" "out ! i = Some a" "out ! j = Some b" for i j a b
  proof -
    have "price_key ?F (out ! i) \<le> price_key ?F (out ! j)"
      using out(3) that(1,2) by (simp add: sorted_iff_nth_mono)
    then have "\<not> price_key ?F (Some b) < price_key ?F (Some a)"
      using that(3,4) by (simp add: not_less)
    then show ?thesis using price_key_ranks [OF F0, of b a] by simp
  qed
  have "i < j"
    if "i < length out" "j < length out" "out ! i = Some a" "out ! j = Some b"
      "spec_ranks_higher ?F a b" for i j a b
  proof (rule ccontr)
    assume "\<not> i < j"
    then consider "j = i" | "j < i" by linarith
    then show False
    proof cases
      case 1
      then show ?thesis using that spec_ranks_higher_irrefl by auto
    next
      case 2
      then show ?thesis using later [of j i b a] that by simp
    qed
  qed
  with out later show ?thesis by (intro exI [of _ out]) blast
qed

text \<open>
  C2 (as amended). Build a queue with \<open>newPricesQueue\<close> from a base fee and an initial
  batch, push further records, then pop until the queue is empty; all records have
  populated fee fields. The pops return normally and yield every record exactly as
  often as it was put in. Whenever the comparator of section 4.2 (price tiers, then
  the lower nonce) ranks \<open>a\<close> higher than \<open>b\<close>, every pop of \<open>a\<close> comes before every
  pop of \<open>b\<close>; and whenever \<open>a\<close> is popped before \<open>b\<close>, the comparator does not rank
  \<open>b\<close> higher than \<open>a\<close>.
\<close>

theorem pop_order:
  assumes "list_all priced (initialTxs @ pushed)"
  shows "\<exists>out. drain base initialTxs pushed = Inr out
           \<and> mset out = mset (initialTxs @ pushed)
           \<and> (\<forall>i j a b. i < j \<and> j < length out \<and> out ! i = Some a \<and> out ! j = Some b
                 \<longrightarrow> \<not> spec_ranks_higher (uint base) b a)
           \<and> (\<forall>i j a b. i < length out \<and> j < length out \<and> out ! i = Some a \<and> out ! j = Some b
                 \<and> spec_ranks_higher (uint base) a b \<longrightarrow> i < j)"
  using assms by (rule drain_order)

theorem pop_order_witness:
  "list_all priced ([Some (dynamic_tx 1 80 150 2)] @ [Some (dynamic_tx 1 50 200 1)])
   \<and> spec_ranks_higher (uint (100 :: 64 word)) (dynamic_tx 1 50 200 1) (dynamic_tx 1 80 150 2)
   \<and> drain 100 [Some (dynamic_tx 1 80 150 2)] [Some (dynamic_tx 1 50 200 1)]
       = Inr [Some (dynamic_tx 1 50 200 1), Some (dynamic_tx 1 80 150 2)]
   \<and> \<not> spec_ranks_higher (uint (100 :: 64 word)) (dynamic_tx 1 80 150 2) (dynamic_tx 1 50 200 1)"
proof -
  let ?A = "dynamic_tx 1 50 200 1" and ?B = "dynamic_tx 1 80 150 2"
  have h: "list_all priced ([Some ?B] @ [Some ?A])"
    by (simp add: priced_def fee_populated_def GetGasTipCap_def GetGasFeeCap_def dynamic_tx_def)
  have r: "spec_ranks_higher (uint (100 :: 64 word)) ?A ?B"
    by (simp add: spec_ranks_higher_def spec_compare_def spec_effectiveTip_def spec_feeCap_def
        spec_tipCap_def larger_wins_def dynamic_tx_def)
  have ev: "drain 100 [Some ?B] [Some ?A] = Inr [Some ?A, Some ?B]"
    by code_simp
  from pop_order [OF h, of 100] obtain out
    where out: "drain 100 [Some ?B] [Some ?A] = Inr out"
      and later: "\<forall>i j a b. i < j \<and> j < length out \<and> out ! i = Some a \<and> out ! j = Some b
          \<longrightarrow> \<not> spec_ranks_higher (uint (100 :: 64 word)) b a"
    by blast
  from out ev have o: "out = [Some ?A, Some ?B]" by simp
  have "(0::nat) < 1 \<and> 1 < length out \<and> out ! 0 = Some ?A \<and> out ! 1 = Some ?B"
    by (simp add: o)
  with later have "\<not> spec_ranks_higher (uint (100 :: 64 word)) ?B ?A" by blast
  with h r ev show ?thesis by blast
qed

text \<open>
  The converse fails: two distinct records that tie in all four tiers are popped in
  some order, and the comparator ranks neither higher.
\<close>

theorem pop_order_counterexample:
  "drain 0 [Some (legacy_tx_of 1 1 10 1), Some (legacy_tx_of 2 1 10 2)] []
     = Inr [Some (legacy_tx_of 1 1 10 1), Some (legacy_tx_of 2 1 10 2)]
   \<and> \<not> spec_ranks_higher 0 (legacy_tx_of 1 1 10 1) (legacy_tx_of 2 1 10 2)
   \<and> legacy_tx_of 1 1 10 1 \<noteq> legacy_tx_of 2 1 10 2"
proof -
  have "drain 0 [Some (legacy_tx_of 1 1 10 1), Some (legacy_tx_of 2 1 10 2)] []
     = Inr [Some (legacy_tx_of 1 1 10 1), Some (legacy_tx_of 2 1 10 2)]"
    by code_simp
  moreover have "\<not> spec_ranks_higher 0 (legacy_tx_of 1 1 10 1) (legacy_tx_of 2 1 10 2)"
    by (simp add: spec_ranks_higher_def spec_compare_def spec_feeCap_def spec_tipCap_def
        larger_wins_def legacy_tx_of_def legacy_tx_def LegacyTx_def DynamicFeeTx_def)
  moreover have "legacy_tx_of 1 1 10 1 \<noteq> legacy_tx_of 2 1 10 2"
    by (simp add: legacy_tx_of_def legacy_tx_def)
  ultimately show ?thesis by blast
qed

lemma spec_compare_flip: "spec_compare b a fee = - spec_compare a b fee"
  by (auto simp: spec_compare_def larger_wins_def)

text \<open>
  C5. When \<open>cmp\<close> returns 0 for two records of the queue (a full economic tie) and
  the first has the lower nonce, \<open>Less\<close> ranks the first before the second and not
  the second before the first, and in the pop sequence of the queue every pop of the
  first comes before every pop of the second.
\<close>

theorem full_tie_lower_nonce_first:
  assumes "list_all priced (initialTxs @ pushed)"
    and "Some a \<in> set (initialTxs @ pushed)" and "Some b \<in> set (initialTxs @ pushed)"
    and "cmp (Some a) (Some b) (Some (uint base)) = Inr 0" and "Nonce a < Nonce b"
  shows "Less (maxPriceQueue_heap (Some (uint base))) [Some a, Some b] 0 1 = Inr True
       \<and> Less (maxPriceQueue_heap (Some (uint base))) [Some a, Some b] 1 0 = Inr False
       \<and> (\<exists>out. drain base initialTxs pushed = Inr out
             \<and> Some a \<in> set out \<and> Some b \<in> set out
             \<and> (\<forall>i j. i < length out \<and> j < length out \<and> out ! i = Some a \<and> out ! j = Some b
                   \<longrightarrow> i < j))"
proof -
  let ?F = "uint base"
  have F0: "0 \<le> ?F" by simp
  have "priced (Some a)" "priced (Some b)"
    using assms(1,2,3) unfolding list_all_iff by blast+
  then have pa: "fee_populated a" and pb: "fee_populated b"
    by (simp_all add: priced_def)
  have tie: "spec_compare a b ?F = 0"
    using cmp_spec_compare [OF pa pb F0] assms(4) by simp
  then have tie': "spec_compare b a ?F = 0" using spec_compare_flip [of b a ?F] by simp
  have flip: "cmp (Some b) (Some a) (Some ?F) = Inr 0"
    using cmp_spec_compare [OF pb pa F0] tie' by simp
  have rank: "spec_ranks_higher ?F a b"
    using tie assms(5) by (simp add: spec_ranks_higher_def)
  have l1: "Less (maxPriceQueue_heap (Some ?F)) [Some a, Some b] 0 1 = Inr True"
    using assms(4,5)
    by (simp add: maxPriceQueue_heap_def maxPriceQueue_Less_def slice_index_def)
  have l2: "Less (maxPriceQueue_heap (Some ?F)) [Some a, Some b] 1 0 = Inr False"
    using flip assms(5)
    by (simp add: maxPriceQueue_heap_def maxPriceQueue_Less_def slice_index_def)
  from drain_order [OF assms(1), of base] obtain out
    where out: "drain base initialTxs pushed = Inr out" "mset out = mset (initialTxs @ pushed)"
      and first: "\<forall>i j a b. i < length out \<and> j < length out \<and> out ! i = Some a
          \<and> out ! j = Some b \<and> spec_ranks_higher ?F a b \<longrightarrow> i < j"
    by blast
  have "set out = set (initialTxs @ pushed)" using out(2) by (rule mset_eq_setD)
  with assms(2,3) have "Some a \<in> set out" "Some b \<in> set out" by simp_all
  moreover have "\<forall>i j. i < length out \<and> j < length out \<and> out ! i = Some a \<and> out ! j = Some b
      \<longrightarrow> i < j"
    using first rank by blast
  ultimately show ?thesis using l1 l2 out(1) by blast
qed

theorem full_tie_lower_nonce_first_witness:
  "list_all priced ([Some (legacy_tx 2 10 2), Some (legacy_tx 1 10 1)] @ [])
   \<and> cmp (Some (legacy_tx 1 10 1)) (Some (legacy_tx 2 10 2)) (Some (uint (0 :: 64 word))) = Inr 0
   \<and> Nonce (legacy_tx 1 10 1) < Nonce (legacy_tx 2 10 2)
   \<and> Less (maxPriceQueue_heap (Some (uint (0 :: 64 word))))
        [Some (legacy_tx 1 10 1), Some (legacy_tx 2 10 2)] 0 1 = Inr True
   \<and> drain 0 [Some (legacy_tx 2 10 2), Some (legacy_tx 1 10 1)] []
       = Inr [Some (legacy_tx 1 10 1), Some (legacy_tx 2 10 2)]"
proof -
  let ?a = "legacy_tx 1 10 1" and ?b = "legacy_tx 2 10 2"
  have h: "list_all priced ([Some ?b, Some ?a] @ [])"
    by (simp add: priced_def fee_populated_def GetGasTipCap_def GetGasFeeCap_def legacy_tx_def
        LegacyTx_def DynamicFeeTx_def)
  have ma: "Some ?a \<in> set ([Some ?b, Some ?a] @ [])" and mb: "Some ?b \<in> set ([Some ?b, Some ?a] @ [])"
    by simp_all
  have c: "cmp (Some ?a) (Some ?b) (Some (uint (0 :: 64 word))) = Inr 0"
    by code_simp
  have n: "Nonce ?a < Nonce ?b" by (simp add: legacy_tx_def)
  have ev: "drain 0 [Some ?b, Some ?a] [] = Inr [Some ?a, Some ?b]"
    by code_simp
  from full_tie_lower_nonce_first [OF h ma mb c n]
  have "Less (maxPriceQueue_heap (Some (uint (0 :: 64 word)))) [Some ?a, Some ?b] 0 1 = Inr True"
    by blast
  with h c n ev show ?thesis by blast
qed

text \<open>
  C9 (as amended). Building a queue from a base fee, an initial batch and pushes, and
  popping until it is empty, always returns normally. The pop sequence is the same
  for the same input sequences; it is also the same for every rearrangement of the
  input multiset, provided the comparator of section 4.2 ranks one of every two
  distinct records of the input higher than the other.
\<close>

theorem drain_deterministic:
  assumes "list_all priced (initialTxs @ pushed)"
    and "(initialTxs' = initialTxs \<and> pushed' = pushed) \<or>
         (mset (initialTxs' @ pushed') = mset (initialTxs @ pushed) \<and>
          (\<forall>a b. Some a \<in> set (initialTxs @ pushed) \<and> Some b \<in> set (initialTxs @ pushed)
              \<and> a \<noteq> b
            \<longrightarrow> spec_ranks_higher (uint base) a b \<or> spec_ranks_higher (uint base) b a))"
  shows "\<exists>out. drain base initialTxs pushed = Inr out \<and> drain base initialTxs' pushed' = Inr out"
proof -
  let ?F = "uint base" and ?in = "initialTxs @ pushed"
  have F0: "0 \<le> ?F" by simp
  from drain_correct [OF assms(1), of base] obtain out
    where out: "drain base initialTxs pushed = Inr out" "mset out = mset ?in"
      "sorted (map (price_key ?F) out)"
    by blast
  from assms(2) show ?thesis
  proof
    assume "initialTxs' = initialTxs \<and> pushed' = pushed"
    with out(1) show ?thesis by simp
  next
    assume perm: "mset (initialTxs' @ pushed') = mset ?in \<and>
          (\<forall>a b. Some a \<in> set ?in \<and> Some b \<in> set ?in \<and> a \<noteq> b
            \<longrightarrow> spec_ranks_higher ?F a b \<or> spec_ranks_higher ?F b a)"
    then have set': "set (initialTxs' @ pushed') = set ?in" by (metis mset_eq_setD)
    then have "list_all priced (initialTxs' @ pushed')"
      using assms(1) by (simp add: list_all_iff del: set_append)
    from drain_correct [OF this, of base] obtain out'
      where out': "drain base initialTxs' pushed' = Inr out'"
        "mset out' = mset (initialTxs' @ pushed')" "sorted (map (price_key ?F) out')"
      by blast
    have inj: "inj_on (price_key ?F) (set ?in)"
    proof (rule inj_onI)
      fix x y assume xy: "x \<in> set ?in" "y \<in> set ?in" "price_key ?F x = price_key ?F y"
      from xy(1,2) assms(1) obtain a b where ab: "x = Some a" "y = Some b"
        using priced_Some by (metis list_all_iff)
      have "\<not> spec_ranks_higher ?F a b" "\<not> spec_ranks_higher ?F b a"
        using xy(3) price_key_ranks [OF F0, of a b] price_key_ranks [OF F0, of b a] ab by simp_all
      with perm xy(1,2) ab show "x = y" by blast
    qed
    have "sort_key (price_key ?F) ?in = out"
      using out(2,3) inj by (intro sort_key_inj_key_eq) simp_all
    moreover have "sort_key (price_key ?F) ?in = out'"
      using out'(2,3) perm inj by (intro sort_key_inj_key_eq) simp_all
    ultimately show ?thesis using out(1) out'(1) by simp
  qed
qed

theorem drain_deterministic_witness:
  "list_all priced ([Some (dynamic_tx 1 50 200 1), Some (dynamic_tx 1 80 150 2)] @ [])
   \<and> mset ([Some (dynamic_tx 1 80 150 2)] @ [Some (dynamic_tx 1 50 200 1)])
       = mset ([Some (dynamic_tx 1 50 200 1), Some (dynamic_tx 1 80 150 2)] @ [])
   \<and> spec_ranks_higher (uint (100 :: 64 word)) (dynamic_tx 1 50 200 1) (dynamic_tx 1 80 150 2)
   \<and> drain 100 [Some (dynamic_tx 1 50 200 1), Some (dynamic_tx 1 80 150 2)] []
       = Inr [Some (dynamic_tx 1 50 200 1), Some (dynamic_tx 1 80 150 2)]
   \<and> drain 100 [Some (dynamic_tx 1 80 150 2)] [Some (dynamic_tx 1 50 200 1)]
       = Inr [Some (dynamic_tx 1 50 200 1), Some (dynamic_tx 1 80 150 2)]"
proof -
  let ?A = "dynamic_tx 1 50 200 1" and ?B = "dynamic_tx 1 80 150 2"
  have h: "list_all priced ([Some ?A, Some ?B] @ [])"
    by (simp add: priced_def fee_populated_def GetGasTipCap_def GetGasFeeCap_def dynamic_tx_def)
  have m: "mset ([Some ?B] @ [Some ?A]) = mset ([Some ?A, Some ?B] @ [])" by simp
  have r: "spec_ranks_higher (uint (100 :: 64 word)) ?A ?B"
    by (simp add: spec_ranks_higher_def spec_compare_def spec_effectiveTip_def spec_feeCap_def
        spec_tipCap_def larger_wins_def dynamic_tx_def)
  have t: "\<forall>a b. Some a \<in> set ([Some ?A, Some ?B] @ []) \<and> Some b \<in> set ([Some ?A, Some ?B] @ [])
              \<and> a \<noteq> b
            \<longrightarrow> spec_ranks_higher (uint (100 :: 64 word)) a b
                \<or> spec_ranks_higher (uint (100 :: 64 word)) b a"
    using r by auto
  have ev: "drain 100 [Some ?A, Some ?B] [] = Inr [Some ?A, Some ?B]"
    by code_simp
  from drain_deterministic [OF h, of "[Some ?B]" "[Some ?A]" 100] m t
  obtain out where "drain 100 [Some ?A, Some ?B] [] = Inr out"
    "drain 100 [Some ?B] [Some ?A] = Inr out"
    by blast
  with ev have "drain 100 [Some ?B] [Some ?A] = Inr [Some ?A, Some ?B]" by simp
  with h m r ev show ?thesis by blast
qed

text \<open>
  With two distinct records that tie in all four tiers, the pop sequence follows the
  order of the input: the same multiset gives two different pop sequences.
\<close>

theorem drain_deterministic_counterexample:
  "mset [Some (legacy_tx_of 1 1 10 1), Some (legacy_tx_of 2 1 10 2)]
     = mset [Some (legacy_tx_of 2 1 10 2), Some (legacy_tx_of 1 1 10 1)]
   \<and> drain 0 [Some (legacy_tx_of 1 1 10 1), Some (legacy_tx_of 2 1 10 2)] []
       = Inr [Some (legacy_tx_of 1 1 10 1), Some (legacy_tx_of 2 1 10 2)]
   \<and> drain 0 [Some (legacy_tx_of 2 1 10 2), Some (legacy_tx_of 1 1 10 1)] []
       = Inr [Some (legacy_tx_of 2 1 10 2), Some (legacy_tx_of 1 1 10 1)]
   \<and> [Some (legacy_tx_of 1 1 10 1), Some (legacy_tx_of 2 1 10 2)]
       \<noteq> [Some (legacy_tx_of 2 1 10 2), Some (legacy_tx_of 1 1 10 1)]"
proof -
  have "drain 0 [Some (legacy_tx_of 1 1 10 1), Some (legacy_tx_of 2 1 10 2)] []
       = Inr [Some (legacy_tx_of 1 1 10 1), Some (legacy_tx_of 2 1 10 2)]"
    by code_simp
  moreover have "drain 0 [Some (legacy_tx_of 2 1 10 2), Some (legacy_tx_of 1 1 10 1)] []
       = Inr [Some (legacy_tx_of 2 1 10 2), Some (legacy_tx_of 1 1 10 1)]"
    by code_simp
  moreover have "legacy_tx_of 1 1 10 1 \<noteq> legacy_tx_of 2 1 10 2"
    by (simp add: legacy_tx_of_def legacy_tx_def)
  ultimately show ?thesis by simp
qed

section \<open>Pushing a value that is not a transaction\<close>

datatype priced_op = PricedPush TxPtr | PricedPop

fun pricedQueue_run :: "priced_op list \<Rightarrow> pricedQueue \<Rightarrow> panic + pricedQueue" where
  "pricedQueue_run [] q = Inr q"
| "pricedQueue_run (PricedPush tx # ops) q =
     and_then (pricedQueue_push q tx) (pricedQueue_run ops)"
| "pricedQueue_run (PricedPop # ops) q =
     and_then (pricedQueue_pop q) (\<lambda>(tx, q'). pricedQueue_run ops q')"

text \<open>
  A sequence of pops and of pushes of records with populated fee fields never panics.
\<close>

fun pushes_priced :: "priced_op \<Rightarrow> bool" where
  "pushes_priced (PricedPush tx) = priced tx"
| "pushes_priced PricedPop = True"

lemma pricedQueue_pop_inv:
  assumes "priced_inv fee q"
  shows "\<exists>tx q'. pricedQueue_pop q = Inr (tx, q') \<and> priced_inv fee q'"
proof (cases "txs q = []")
  case True
  then have "pricedQueue_pop q = Inr (None, q)"
    by (simp add: pricedQueue_pop_def pricedQueue_length_eq)
  with assms show ?thesis by blast
next
  case False
  then show ?thesis using pricedQueue_pop_correct [OF assms] by blast
qed

lemma pricedQueue_run_inv:
  "priced_inv fee q \<Longrightarrow> list_all pushes_priced ops \<Longrightarrow>
     \<exists>q'. pricedQueue_run ops q = Inr q' \<and> priced_inv fee q'"
proof (induction ops arbitrary: q)
  case Nil
  then show ?case by simp
next
  case (Cons op ops)
  show ?case
  proof (cases op)
    case (PricedPush tx)
    with Cons.prems pricedQueue_push_correct [of fee q tx]
    obtain q1 where "pricedQueue_push q tx = Inr q1" "priced_inv fee q1" by auto
    with Cons.IH [of q1] Cons.prems PricedPush show ?thesis by simp
  next
    case PricedPop
    from pricedQueue_pop_inv [OF Cons.prems(1)]
    obtain tx q1 where "pricedQueue_pop q = Inr (tx, q1)" "priced_inv fee q1" by auto
    with Cons.IH [of q1] Cons.prems PricedPop show ?thesis by simp
  qed
qed

text \<open>
  Every price-ordered queue that the constructor and a sequence of pushes and pops
  return, whatever records were given, is ordered.
\<close>

lemma newPricesQueue_ordered:
  assumes "newPricesQueue base initialTxs = Inr p"
  shows "ordered (maxPriceQueue_heap (baseFee p)) (txs p)"
proof -
  from assms obtain s where s: "heap_Init (maxPriceQueue_heap (Some (uint base))) initialTxs = Inr s"
    and p: "p = \<lparr>baseFee = Some (uint base), txs = s\<rparr>"
    by (auto simp: newPricesQueue_def Let_def and_then_def split: sum.splits)
  from ordered_Init [OF slice_order_maxPriceQueue s] p show ?thesis by simp
qed

lemma pricedQueue_push_ordered:
  assumes "pricedQueue_push q tx = Inr q'" "ordered (maxPriceQueue_heap (baseFee q)) (txs q)"
  shows "ordered (maxPriceQueue_heap (baseFee q')) (txs q')"
proof -
  from assms(1) obtain s
    where s: "heap_Push (maxPriceQueue_heap (baseFee q)) (txs q) (TransactionValue tx) = Inr s"
      and q': "q' = q\<lparr>txs := s\<rparr>"
    by (auto simp: pricedQueue_push_def and_then_def split: sum.splits)
  from ordered_Push [OF slice_order_maxPriceQueue tx_ops_maxPriceQueue assms(2) s] q'
  show ?thesis by simp
qed

lemma pricedQueue_pop_ordered:
  assumes "pricedQueue_pop q = Inr (tx, q')" "ordered (maxPriceQueue_heap (baseFee q)) (txs q)"
  shows "ordered (maxPriceQueue_heap (baseFee q')) (txs q')"
proof (cases "txs q = []")
  case True
  then have "pricedQueue_pop q = Inr (None, q)"
    by (simp add: pricedQueue_pop_def pricedQueue_length_eq)
  with assms show ?thesis by simp
next
  case False
  then have "pricedQueue_length q \<noteq> 0" by (simp add: pricedQueue_length_eq)
  with assms(1) obtain x s
    where s: "heap_Pop (maxPriceQueue_heap (baseFee q)) (txs q) = Inr (x, s)"
      and q': "txs q' = s" "baseFee q' = baseFee q"
    by (auto simp: pricedQueue_pop_def and_then_def split: sum.splits any_value.splits)
  from ordered_Pop [OF slice_order_maxPriceQueue tx_ops_maxPriceQueue assms(2) False s] q'
  show ?thesis by simp
qed

lemma pricedQueue_run_ordered:
  "pricedQueue_run ops q = Inr q' \<Longrightarrow> ordered (maxPriceQueue_heap (baseFee q)) (txs q) \<Longrightarrow>
     ordered (maxPriceQueue_heap (baseFee q')) (txs q')"
proof (induction ops arbitrary: q)
  case Nil
  then show ?case by simp
next
  case (Cons op ops)
  show ?case
  proof (cases op)
    case (PricedPush tx)
    with Cons.prems(1) obtain q1 where 1: "pricedQueue_push q tx = Inr q1"
      and 2: "pricedQueue_run ops q1 = Inr q'"
      by (auto simp: and_then_def split: sum.splits)
    from Cons.IH [OF 2] pricedQueue_push_ordered [OF 1 Cons.prems(2)] show ?thesis by simp
  next
    case PricedPop
    with Cons.prems(1) obtain tx q1 where 1: "pricedQueue_pop q = Inr (tx, q1)"
      and 2: "pricedQueue_run ops q1 = Inr q'"
      by (auto simp: and_then_def split: sum.splits)
    from Cons.IH [OF 2] pricedQueue_pop_ordered [OF 1 Cons.prems(2)] show ?thesis by simp
  qed
qed

text \<open>
  C6 (as amended). On every per-account queue that \<open>newAccountQueue\<close> and a sequence of
  pushes, pops, prunes and clears return, and on every price-ordered queue that
  \<open>newPricesQueue\<close> and a sequence of pushes and pops return, whatever records they were
  given, \<open>Push\<close> with a value that is not a \<open>*types.Transaction\<close> leaves the slice as it
  is, and \<open>heap.Push\<close> with such a value returns normally with the queue unchanged. The
  caller receives no signal: the value is dropped silently.
\<close>

theorem wrong_kind_refused_silently:
  assumes "and_then newAccountQueue (accountQueue_run ops) = Inr q"
    and "and_then (newPricesQueue base initialTxs) (pricedQueue_run pops) = Inr p"
  shows "minNonceQueue_Push (queue q) OtherValue = queue q
       \<and> heap_Push minNonceQueue (queue q) OtherValue = Inr (queue q)
       \<and> maxPriceQueue_Push (txs p) OtherValue = txs p
       \<and> heap_Push (maxPriceQueue_heap (baseFee p)) (txs p) OtherValue = Inr (txs p)"
proof -
  have a: "heap_Push minNonceQueue (queue q) OtherValue = Inr (queue q)"
    using ordered_Push_other [OF slice_order_minNonceQueue tx_ops_minNonceQueue]
      newAccountQueue_run_ordered [OF assms(1)] by simp
  from assms(2) obtain p0 where p0: "newPricesQueue base initialTxs = Inr p0"
    and run: "pricedQueue_run pops p0 = Inr p"
    by (auto simp: and_then_def split: sum.splits)
  from pricedQueue_run_ordered [OF run newPricesQueue_ordered [OF p0]]
  have "heap_Push (maxPriceQueue_heap (baseFee p)) (txs p) OtherValue = Inr (txs p)"
    using ordered_Push_other [OF slice_order_maxPriceQueue tx_ops_maxPriceQueue] by simp
  with a show ?thesis by (simp add: minNonceQueue_Push_def maxPriceQueue_Push_def)
qed

theorem wrong_kind_refused_silently_witness:
  "and_then newAccountQueue (accountQueue_run
      [OpPush (Some (dynamic_tx 7 10 10 1)), OpPush (Some (dynamic_tx 7 20 20 2))])
     = Inr \<lparr>mutex = \<lparr>writer = False, readers = 0\<rparr>, wLock = 0,
            queue = [Some (dynamic_tx 7 10 10 1), Some (dynamic_tx 7 20 20 2)]\<rparr>
   \<and> and_then (newPricesQueue 0 [Some (legacy_tx 3 1 1), Some (dynamic_tx 4 2 5 2)])
        (pricedQueue_run [PricedPop])
       = Inr \<lparr>baseFee = Some 0, txs = [Some (legacy_tx 3 1 1)]\<rparr>
   \<and> heap_Push minNonceQueue [Some (dynamic_tx 7 10 10 1), Some (dynamic_tx 7 20 20 2)] OtherValue
       = Inr [Some (dynamic_tx 7 10 10 1), Some (dynamic_tx 7 20 20 2)]
   \<and> heap_Push (maxPriceQueue_heap (Some 0)) [Some (legacy_tx 3 1 1)] OtherValue
       = Inr [Some (legacy_tx 3 1 1)]"
proof -
  let ?q = "\<lparr>mutex = \<lparr>writer = False, readers = 0\<rparr>, wLock = 0,
            queue = [Some (dynamic_tx 7 10 10 1), Some (dynamic_tx 7 20 20 2)]\<rparr>"
  let ?p = "\<lparr>baseFee = Some 0, txs = [Some (legacy_tx 3 1 1)]\<rparr>"
  have r1: "and_then newAccountQueue (accountQueue_run
      [OpPush (Some (dynamic_tx 7 10 10 1)), OpPush (Some (dynamic_tx 7 20 20 2))]) = Inr ?q"
    by code_simp
  have r2: "and_then (newPricesQueue 0 [Some (legacy_tx 3 1 1), Some (dynamic_tx 4 2 5 2)])
        (pricedQueue_run [PricedPop]) = Inr ?p"
    by code_simp
  from wrong_kind_refused_silently [OF r1 r2]
  have "heap_Push minNonceQueue [Some (dynamic_tx 7 10 10 1), Some (dynamic_tx 7 20 20 2)] OtherValue
       = Inr [Some (dynamic_tx 7 10 10 1), Some (dynamic_tx 7 20 20 2)]"
    "heap_Push (maxPriceQueue_heap (Some 0)) [Some (legacy_tx 3 1 1)] OtherValue
       = Inr [Some (legacy_tx 3 1 1)]"
    by simp_all
  with r1 r2 show ?thesis by blast
qed

text \<open>
  The call returns normally with the state it was given, on both queues: nothing
  reaches the caller.
\<close>

theorem wrong_kind_surfaced_counterexample:
  "heap_Push minNonceQueue [Some (legacy_tx 3 1 1)] OtherValue = Inr [Some (legacy_tx 3 1 1)]
   \<and> heap_Push (maxPriceQueue_heap (Some 0)) [Some (legacy_tx 3 1 1)] OtherValue
       = Inr [Some (legacy_tx 3 1 1)]"
  by code_simp

section \<open>The lock of the per-account queue\<close>

text \<open>The release \<open>unlock\<close> performs in a state: exclusive (\<open>Unlock\<close>) or shared.\<close>

definition releases_exclusive :: "accountQueue \<Rightarrow> bool" where
  "releases_exclusive q = (wLock q = 1)"

datatype lock_op = CallLock bool | CallUnlock

text \<open>
  A sequence of calls in which every \<open>unlock\<close> performs the release of the mode the
  most recent \<open>lock\<close> acquired, and none aborts. A \<open>lock\<close> that does not return ends
  the sequence.
\<close>

fun unlocks_match :: "lock_op list \<Rightarrow> accountQueue \<Rightarrow> bool option \<Rightarrow> bool" where
  "unlocks_match [] q recent = True"
| "unlocks_match (CallLock write # ops) q recent =
     (case accountQueue_lock q write of
        None \<Rightarrow> True
      | Some q' \<Rightarrow> wLock q' = (if write then 1 else 0) \<and> unlocks_match ops q' (Some write))"
| "unlocks_match (CallUnlock # ops) q recent =
     (case accountQueue_unlock q of
        Inl f \<Rightarrow> False
      | Inr q' \<Rightarrow> recent = Some (releases_exclusive q) \<and> unlocks_match ops q' recent)"

text \<open>Every \<open>unlock\<close> of the sequence has a \<open>lock\<close> before it that it can answer.\<close>

fun paired :: "lock_op list \<Rightarrow> nat \<Rightarrow> bool" where
  "paired [] n = True"
| "paired (CallLock write # ops) n = paired ops (Suc n)"
| "paired (CallUnlock # ops) n = (n > 0 \<and> paired ops (n - 1))"

definition lock_inv :: "accountQueue \<Rightarrow> nat \<Rightarrow> bool option \<Rightarrow> bool" where
  "lock_inv q n recent \<longleftrightarrow>
     (wLock q = 1 \<longleftrightarrow> writer (mutex q)) \<and>
     n = readers (mutex q) + (if writer (mutex q) then 1 else 0) \<and>
     (writer (mutex q) \<longrightarrow> readers (mutex q) = 0) \<and>
     (n > 0 \<longrightarrow> recent = Some (writer (mutex q)))"

lemma paired_unlocks_match:
  "paired ops n \<Longrightarrow> lock_inv q n recent \<Longrightarrow> unlocks_match ops q recent"
proof (induction ops arbitrary: q n recent)
  case Nil
  then show ?case by simp
next
  case (Cons op ops)
  show ?case
  proof (cases op)
    case (CallLock w)
    show ?thesis
    proof (cases "accountQueue_lock q w")
      case None
      with CallLock show ?thesis by simp
    next
      case (Some q')
      then have "wLock q' = (if w then 1 else 0)" "lock_inv q' (Suc n) (Some w)"
        using Cons.prems(2)
        by (auto simp: accountQueue_lock_def RWMutex_Lock_def RWMutex_RLock_def lock_inv_def
            split: bool.splits if_splits)
      with Cons.IH [of "Suc n" q' "Some w"] Cons.prems(1) CallLock Some show ?thesis
        by simp
    qed
  next
    case CallUnlock
    with Cons.prems(1) have n: "n > 0" "paired ops (n - 1)" by simp_all
    define q' where "q' = (if writer (mutex q)
        then q\<lparr>wLock := 0, mutex := (mutex q)\<lparr>writer := False\<rparr>\<rparr>
        else q\<lparr>wLock := 0, mutex := (mutex q)\<lparr>readers := readers (mutex q) - 1\<rparr>\<rparr>)"
    have u: "accountQueue_unlock q = Inr q'"
      using Cons.prems(2) n(1)
      by (cases "writer (mutex q)")
        (simp_all add: accountQueue_unlock_def RWMutex_Unlock_def RWMutex_RUnlock_def
          lock_inv_def Let_def q'_def)
    have r: "recent = Some (releases_exclusive q)"
      using Cons.prems(2) n(1) by (simp add: lock_inv_def releases_exclusive_def)
    have i: "lock_inv q' (n - 1) recent"
      using Cons.prems(2) n(1)
      by (cases "writer (mutex q)") (auto simp: lock_inv_def q'_def)
    from u r i
    show ?thesis using Cons.IH [of "n - 1" q' recent] n CallUnlock by simp
  qed
qed

text \<open>
  The same with the statements of \<open>lock\<close> and \<open>unlock\<close> as separate atomic steps of
  goroutines that run concurrently, each calling \<open>lock\<close>, then \<open>unlock\<close>, again and
  again. A goroutine is outside both calls or waiting for the mutex (\<open>Idle\<close>), has the
  mutex and has not yet stored the flag (\<open>Locked\<close>), holds the lock (\<open>Stored\<close>), or has
  swapped the flag in \<open>unlock\<close> and is about to release (\<open>Swapped\<close>, with the mode it
  acquired and the value it read). The state keeps the multiset of these positions.
\<close>

datatype pc = Idle | Locked bool | Stored bool | Swapped bool "32 word"

record goroutines =
  rw :: RWMutex
  flag :: "32 word"
  pcs :: "pc multiset"

inductive step :: "goroutines \<Rightarrow> goroutines \<Rightarrow> bool" where
  Lock_returns:
    "Idle \<in># pcs s \<Longrightarrow> RWMutex_Lock (rw s) = Some m \<Longrightarrow>
       step s (s\<lparr>rw := m, pcs := add_mset (Locked True) (pcs s - {#Idle#})\<rparr>)"
| RLock_returns:
    "Idle \<in># pcs s \<Longrightarrow> RWMutex_RLock (rw s) = Some m \<Longrightarrow>
       step s (s\<lparr>rw := m, pcs := add_mset (Locked False) (pcs s - {#Idle#})\<rparr>)"
| Store:
    "Locked w \<in># pcs s \<Longrightarrow>
       step s (s\<lparr>flag := (if w then 1 else 0),
                 pcs := add_mset (Stored w) (pcs s - {#Locked w#})\<rparr>)"
| Swap:
    "Stored w \<in># pcs s \<Longrightarrow>
       step s (s\<lparr>flag := 0, pcs := add_mset (Swapped w (flag s)) (pcs s - {#Stored w#})\<rparr>)"
| Unlock_returns:
    "Swapped w 1 \<in># pcs s \<Longrightarrow> RWMutex_Unlock (rw s) = Inr m \<Longrightarrow>
       step s (s\<lparr>rw := m, pcs := add_mset Idle (pcs s - {#Swapped w 1#})\<rparr>)"
| RUnlock_returns:
    "Swapped w v \<in># pcs s \<Longrightarrow> v \<noteq> 1 \<Longrightarrow> RWMutex_RUnlock (rw s) = Inr m \<Longrightarrow>
       step s (s\<lparr>rw := m, pcs := add_mset Idle (pcs s - {#Swapped w v#})\<rparr>)"

inductive reachable :: "goroutines \<Rightarrow> bool" where
  initially:
    "reachable \<lparr>rw = \<lparr>writer = False, readers = 0\<rparr>, flag = 0, pcs = replicate_mset n Idle\<rparr>"
| after_step: "reachable s \<Longrightarrow> step s s' \<Longrightarrow> reachable s'"

text \<open>A goroutine about to release aborts when the mutex is not held in that mode.\<close>

definition aborts :: "goroutines \<Rightarrow> bool" where
  "aborts s \<longleftrightarrow>
     (\<exists>w. Swapped w 1 \<in># pcs s \<and> \<not> writer (rw s)) \<or>
     (\<exists>w v. Swapped w v \<in># pcs s \<and> v \<noteq> 1 \<and> readers (rw s) = 0)"

fun acquired :: "pc \<Rightarrow> bool option" where
  "acquired Idle = None"
| "acquired (Locked w) = Some w"
| "acquired (Stored w) = Some w"
| "acquired (Swapped w v) = Some w"

definition holders :: "bool \<Rightarrow> pc multiset \<Rightarrow> nat" where
  "holders w ps = size (filter_mset (\<lambda>p. acquired p = Some w) ps)"

definition conc_inv :: "RWMutex \<Rightarrow> 32 word \<Rightarrow> pc multiset \<Rightarrow> bool" where
  "conc_inv m f ps \<longleftrightarrow>
     readers m = holders False ps \<and>
     (if writer m then 1 else 0) = holders True ps \<and>
     (writer m \<longrightarrow> readers m = 0) \<and>
     (f = 1 \<longleftrightarrow> Stored True \<in># ps) \<and>
     (\<forall>w v. Swapped w v \<in># ps \<longrightarrow> (v = 1 \<longleftrightarrow> w))"

lemma holders_add [simp]:
  "holders w (add_mset p ps) = (if acquired p = Some w then Suc (holders w ps) else holders w ps)"
  by (simp add: holders_def)

lemma holders_empty [simp]: "holders w {#} = 0"
  by (simp add: holders_def)

lemma holders_zero: "holders w ps = 0 \<Longrightarrow> p \<in># ps \<Longrightarrow> acquired p \<noteq> Some w"
  by (auto simp: holders_def)

lemma holders_replicate [simp]: "holders w (replicate_mset n Idle) = 0"
  by (induction n) simp_all

lemma conc_inv_start: "conc_inv \<lparr>writer = False, readers = 0\<rparr> 0 (replicate_mset n Idle)"
  by (simp add: conc_inv_def)

lemma conc_inv_step:
  assumes "conc_inv (rw s) (flag s) (pcs s)" "step s s'"
  shows "conc_inv (rw s') (flag s') (pcs s')"
  using assms(2,1)
proof (cases rule: step.cases)
  case (Lock_returns m)
  then obtain rest where ps: "pcs s = add_mset Idle rest" by (meson mset_add)
  have m: "\<not> writer (rw s)" "readers (rw s) = 0" "m = (rw s)\<lparr>writer := True\<rparr>"
    using Lock_returns(3) by (auto simp: RWMutex_Lock_def split: if_splits)
  from assms(1) have "holders True rest = 0" "holders False rest = 0"
    by (simp_all add: conc_inv_def ps m)
  then have "Stored True \<notin># rest" "\<And>w v. Swapped w v \<notin># rest"
    using holders_zero [of _ rest] by (metis acquired.simps(3), metis (full_types) acquired.simps(4))
  with assms(1) show ?thesis
    by (simp add: Lock_returns(1) conc_inv_def ps m)
next
  case (RLock_returns m)
  then obtain rest where ps: "pcs s = add_mset Idle rest" by (meson mset_add)
  have m: "\<not> writer (rw s)" "m = (rw s)\<lparr>readers := readers (rw s) + 1\<rparr>"
    using RLock_returns(3) by (auto simp: RWMutex_RLock_def split: if_splits)
  from assms(1) show ?thesis
    by (simp add: RLock_returns(1) conc_inv_def ps m)
next
  case (Store w)
  then obtain rest where ps: "pcs s = add_mset (Locked w) rest" by (meson mset_add)
  show ?thesis
  proof (cases w)
    case True
    with assms(1) show ?thesis by (simp add: Store(1) conc_inv_def ps split: if_splits)
  next
    case False
    with assms(1) have "holders True rest = 0"
      by (auto simp: conc_inv_def ps split: if_splits)
    then have "Stored True \<notin># rest" using holders_zero [of True rest] by fastforce
    with assms(1) False show ?thesis by (auto simp: Store(1) conc_inv_def ps split: if_splits)
  qed
next
  case (Swap w)
  then obtain rest where ps: "pcs s = add_mset (Stored w) rest" by (meson mset_add)
  show ?thesis
  proof (cases w)
    case True
    with assms(1) have "holders True rest = 0" "flag s = 1"
      by (auto simp: conc_inv_def ps split: if_splits)
    then have "Stored True \<notin># rest" using holders_zero [of True rest] by fastforce
    with assms(1) True \<open>flag s = 1\<close> show ?thesis
      by (simp add: Swap(1) conc_inv_def ps split: if_splits)
  next
    case False
    with assms(1) have "holders True rest = 0"
      by (auto simp: conc_inv_def ps split: if_splits)
    then have no: "Stored True \<notin># rest" using holders_zero [of True rest] by fastforce
    with assms(1) False have "flag s \<noteq> 1" by (simp add: conc_inv_def ps)
    with assms(1) False no show ?thesis
      by (auto simp: Swap(1) conc_inv_def ps split: if_splits)
  qed
next
  case (Unlock_returns w m)
  then obtain rest where ps: "pcs s = add_mset (Swapped w 1) rest" by (meson mset_add)
  have m: "writer (rw s)" "m = (rw s)\<lparr>writer := False\<rparr>"
    using Unlock_returns(3) by (auto simp: RWMutex_Unlock_def split: if_splits)
  from assms(1) have "w" by (auto simp: conc_inv_def ps)
  with assms(1) show ?thesis
    by (simp add: Unlock_returns(1) conc_inv_def ps m split: if_splits)
next
  case (RUnlock_returns w v m)
  then obtain rest where ps: "pcs s = add_mset (Swapped w v) rest" by (meson mset_add)
  have m: "readers (rw s) > 0" "m = (rw s)\<lparr>readers := readers (rw s) - 1\<rparr>"
    using RUnlock_returns(4) by (auto simp: RWMutex_RUnlock_def split: if_splits)
  from assms(1) RUnlock_returns(3) have "\<not> w" by (auto simp: conc_inv_def ps)
  with assms(1) m(1) show ?thesis
    by (auto simp: RUnlock_returns(1) conc_inv_def ps m(2) split: if_splits)
qed

lemma reachable_inv: "reachable s \<Longrightarrow> conc_inv (rw s) (flag s) (pcs s)"
proof (induction rule: reachable.induct)
  case (initially n)
  show ?case using conc_inv_start [of n] by simp
next
  case (after_step s s')
  then show ?case using conc_inv_step by blast
qed

lemma concurrent_unlock_matches:
  assumes "reachable s"
  shows "(\<forall>w v. Swapped w v \<in># pcs s \<longrightarrow> (v = 1 \<longleftrightarrow> w)) \<and> \<not> aborts s"
proof -
  from reachable_inv [OF assms] have inv: "conc_inv (rw s) (flag s) (pcs s)" .
  then have match: "\<forall>w v. Swapped w v \<in># pcs s \<longrightarrow> (v = 1 \<longleftrightarrow> w)"
    by (simp add: conc_inv_def)
  have "\<not> aborts s"
  proof
    assume "aborts s"
    then consider w where "Swapped w 1 \<in># pcs s" "\<not> writer (rw s)"
      | w v where "Swapped w v \<in># pcs s" "v \<noteq> 1" "readers (rw s) = 0"
      unfolding aborts_def by blast
    then show False
    proof cases
      case 1
      then obtain rest where ps: "pcs s = add_mset (Swapped w 1) rest" by (meson mset_add)
      with match have "w" by auto
      with inv 1(2) show False by (auto simp: conc_inv_def ps)
    next
      case 2
      then obtain rest where ps: "pcs s = add_mset (Swapped w v) rest" by (meson mset_add)
      with match 2(2) have "\<not> w" by auto
      with inv 2(3) show False by (auto simp: conc_inv_def ps)
    qed
  qed
  with match show ?thesis by blast
qed

lemma reachable_example:
  "reachable \<lparr>rw = \<lparr>writer = True, readers = 0\<rparr>, flag = 0, pcs = {#Swapped True 1, Idle#}\<rparr>"
proof -
  let ?s0 = "\<lparr>rw = \<lparr>writer = False, readers = 0\<rparr>, flag = 0, pcs = replicate_mset 2 Idle\<rparr>"
  let ?s1 = "\<lparr>rw = \<lparr>writer = True, readers = 0\<rparr>, flag = 0, pcs = {#Locked True, Idle#}\<rparr>"
  let ?s2 = "\<lparr>rw = \<lparr>writer = True, readers = 0\<rparr>, flag = 1, pcs = {#Stored True, Idle#}\<rparr>"
  let ?s3 = "\<lparr>rw = \<lparr>writer = True, readers = 0\<rparr>, flag = 0, pcs = {#Swapped True 1, Idle#}\<rparr>"
  have r0: "reachable ?s0" by (rule reachable.initially)
  have "step ?s0 (?s0\<lparr>rw := \<lparr>writer = True, readers = 0\<rparr>,
      pcs := add_mset (Locked True) (pcs ?s0 - {#Idle#})\<rparr>)"
    by (rule step.Lock_returns) (simp_all add: RWMutex_Lock_def numeral_2_eq_2)
  then have "step ?s0 ?s1" by (simp add: numeral_2_eq_2)
  with r0 have r1: "reachable ?s1" by (rule reachable.after_step)
  have "step ?s1 (?s1\<lparr>flag := (if True then 1 else 0),
      pcs := add_mset (Stored True) (pcs ?s1 - {#Locked True#})\<rparr>)"
    by (rule step.Store) simp
  then have "step ?s1 ?s2" by simp
  with r1 have r2: "reachable ?s2" by (rule reachable.after_step)
  have "step ?s2 (?s2\<lparr>flag := 0,
      pcs := add_mset (Swapped True (flag ?s2)) (pcs ?s2 - {#Stored True#})\<rparr>)"
    by (rule step.Swap) simp
  then have "step ?s2 ?s3" by simp
  with r2 show ?thesis by (rule reachable.after_step)
qed

text \<open>
  C7 (as amended). Start with the mutex free and take any sequence of \<open>lock\<close> and
  \<open>unlock\<close> calls in which every \<open>unlock\<close> has an earlier \<open>lock\<close> still outstanding.
  Every \<open>lock\<close> that returns records the mode it acquired in \<open>wLock\<close>, and every
  \<open>unlock\<close> performs the release of the mode the most recent \<open>lock\<close> acquired, without
  a fatal error. The same holds when goroutines that each call \<open>lock\<close> and then
  \<open>unlock\<close> run concurrently and the statements of the two methods interleave: a
  goroutine that has swapped the flag read 1 exactly when it acquired the exclusive
  mode, and its release does not abort. The pairing is the callers' part: \<open>unlock\<close>
  takes the release from the flag alone.
\<close>

theorem paired_unlock_releases_acquired_mode:
  "(paired ops 0 \<and> \<not> writer (mutex q) \<and> readers (mutex q) = 0 \<and> wLock q = 0
      \<longrightarrow> unlocks_match ops q None)
   \<and> (reachable s
      \<longrightarrow> (\<forall>w v. Swapped w v \<in># pcs s \<longrightarrow> (v = 1 \<longleftrightarrow> w)) \<and> \<not> aborts s)"
proof -
  have "unlocks_match ops q None"
    if "paired ops 0" "\<not> writer (mutex q)" "readers (mutex q) = 0" "wLock q = 0"
    using that by (intro paired_unlocks_match [of ops 0]) (simp_all add: lock_inv_def)
  then show ?thesis using concurrent_unlock_matches [of s] by blast
qed

theorem paired_unlock_releases_acquired_mode_witness:
  "paired [CallLock False, CallLock False, CallUnlock, CallUnlock, CallLock True, CallUnlock] 0
   \<and> unlocks_match
        [CallLock False, CallLock False, CallUnlock, CallUnlock, CallLock True, CallUnlock]
        \<lparr>mutex = \<lparr>writer = False, readers = 0\<rparr>, wLock = 0, queue = []\<rparr> None
   \<and> reachable \<lparr>rw = \<lparr>writer = True, readers = 0\<rparr>, flag = 0,
                  pcs = {#Swapped True 1, Idle#}\<rparr>
   \<and> \<not> aborts \<lparr>rw = \<lparr>writer = True, readers = 0\<rparr>, flag = 0,
                  pcs = {#Swapped True 1, Idle#}\<rparr>"
  using paired_unlock_releases_acquired_mode
    [of "[CallLock False, CallLock False, CallUnlock, CallUnlock, CallLock True, CallUnlock]"
        "\<lparr>mutex = \<lparr>writer = False, readers = 0\<rparr>, wLock = 0, queue = []\<rparr>"
        "\<lparr>rw = \<lparr>writer = True, readers = 0\<rparr>, flag = 0, pcs = {#Swapped True 1, Idle#}\<rparr>"]
    reachable_example
  by simp

text \<open>
  Without the pairing the release can differ from the acquisition: after \<open>lock(true)\<close>
  and one \<open>unlock\<close>, a second \<open>unlock\<close> finds the flag cleared and takes the shared
  release, \<open>RUnlock\<close>, although the most recent \<open>lock\<close> acquired the exclusive mode; the
  runtime aborts.
\<close>

theorem unpaired_unlock_counterexample:
  "accountQueue_lock \<lparr>mutex = \<lparr>writer = False, readers = 0\<rparr>, wLock = 0, queue = []\<rparr> True
     = Some \<lparr>mutex = \<lparr>writer = True, readers = 0\<rparr>, wLock = 1, queue = []\<rparr>
   \<and> accountQueue_unlock \<lparr>mutex = \<lparr>writer = True, readers = 0\<rparr>, wLock = 1, queue = []\<rparr>
     = Inr \<lparr>mutex = \<lparr>writer = False, readers = 0\<rparr>, wLock = 0, queue = []\<rparr>
   \<and> \<not> releases_exclusive \<lparr>mutex = \<lparr>writer = False, readers = 0\<rparr>, wLock = 0, queue = []\<rparr>
   \<and> accountQueue_unlock \<lparr>mutex = \<lparr>writer = False, readers = 0\<rparr>, wLock = 0, queue = []\<rparr>
     = Inl RUnlockOfUnlockedRWMutex
   \<and> \<not> unlocks_match [CallLock True, CallUnlock, CallUnlock]
        \<lparr>mutex = \<lparr>writer = False, readers = 0\<rparr>, wLock = 0, queue = []\<rparr> None"
  by (simp add: accountQueue_lock_def accountQueue_unlock_def RWMutex_Lock_def
      RWMutex_RLock_def RWMutex_Unlock_def RWMutex_RUnlock_def releases_exclusive_def Let_def)

end
